theory Spec2Isabelle
  imports Complex_Main "HOL-Library.Word"
begin

chapter \<open>CubeChip-SDL: a shallow embedding of the verified fragments\<close>

text \<open>
  The development follows the C++ sources: the numeric row container and the
  owning matrix of \<^verbatim>\<open>Assistants/Map2D.hpp\<close>, the frame limiter of
  \<^verbatim>\<open>Assistants/FrameLimiter.cpp\<close>, the dialect detector's error slot of
  \<^verbatim>\<open>GuestClass/GameFileChecker.hpp\<close>, the program descriptor of
  \<^verbatim>\<open>HostClass/HomeDirManager\<close> and the display banks of \<^verbatim>\<open>MemoryBanks.cpp\<close>.
  Mutation is explicit state passing, a thrown exception is the left summand of a
  sum, and every loop is a recursive function.
\<close>

section \<open>Model\<close>

subsection \<open>MapRow: the numeric row container (Map2D.hpp, class MapRow)\<close>

text \<open>
  \<^verbatim>\<open>MapRow<T>\<close> derives from \<^verbatim>\<open>std::vector<T>\<close>; a row is a list.  The element type
  is the template parameter, and its arithmetic enters through the operations of
  the type classes: an unsigned \<open>w\<close>-bit integer is \<open>'w word\<close>, whose \<open>+\<close>, \<open>-\<close>
  wrap and whose \<open>div\<close> is the unsigned machine division.  The loop index is an
  \<^verbatim>\<open>int\<close> compared with \<^verbatim>\<open>std::cmp_less\<close>; rows are shorter than its range.

  A \<^verbatim>\<open>std::domain_error\<close> leaves the row as mutated so far; the thrown value and
  that row form the left summand.
\<close>

datatype exn = domain_error string | out_of_range string

text \<open>
  \<^verbatim>\<open>operator-=(const MapRow& other)\<close>, lines 58--66.  The loop body is
  \<^verbatim>\<open>(*this)[i] += other[i]\<close>, exactly as the source has it.
\<close>

function MapRow_sub_assign_loop :: "nat \<Rightarrow> nat \<Rightarrow> 'a::plus list \<Rightarrow> 'a list \<Rightarrow> 'a list" where
  "MapRow_sub_assign_loop i len this other =
     (if i < len
      then MapRow_sub_assign_loop (i + 1) len (this[i := this ! i + other ! i]) other
      else this)"
  by pat_completeness auto
termination
  by (relation "measure (\<lambda>(i, len, this, other). len - i)") auto
declare MapRow_sub_assign_loop.simps [simp del]

definition MapRow_sub_assign :: "'a::plus list \<Rightarrow> 'a list \<Rightarrow> 'a list" where
  "MapRow_sub_assign this other =
     MapRow_sub_assign_loop 0 (min (length this) (length other)) this other"

text \<open>
  The value-returning sibling \<^verbatim>\<open>operator-(const MapRow& other) const\<close>, lines
  268--277, works on a copy and its body is \<^verbatim>\<open>temp[i] -= other[i]\<close>.
\<close>

function MapRow_sub_loop :: "nat \<Rightarrow> nat \<Rightarrow> 'a::minus list \<Rightarrow> 'a list \<Rightarrow> 'a list" where
  "MapRow_sub_loop i len temp other =
     (if i < len
      then MapRow_sub_loop (i + 1) len (temp[i := temp ! i - other ! i]) other
      else temp)"
  by pat_completeness auto
termination
  by (relation "measure (\<lambda>(i, len, temp, other). len - i)") auto
declare MapRow_sub_loop.simps [simp del]

definition MapRow_sub :: "'a::minus list \<Rightarrow> 'a list \<Rightarrow> 'a list" where
  "MapRow_sub this other =
     MapRow_sub_loop 0 (min (length this) (length other)) this other"

text \<open>
  \<^verbatim>\<open>operator/=(const MapRow& other)\<close>, lines 96--108: the zero test precedes the
  division of each element, and the throw leaves the loop at once.
\<close>

function MapRow_div_assign_loop ::
  "nat \<Rightarrow> nat \<Rightarrow> 'a::{zero,divide} list \<Rightarrow> 'a list \<Rightarrow> (exn \<times> 'a list) + 'a list" where
  "MapRow_div_assign_loop i len this other =
     (if i < len
      then (if other ! i = 0
            then Inl (domain_error ''division by zero'', this)
            else MapRow_div_assign_loop (i + 1) len (this[i := this ! i div other ! i]) other)
      else Inr this)"
  by pat_completeness auto
termination
  by (relation "measure (\<lambda>(i, len, this, other). len - i)") auto
declare MapRow_div_assign_loop.simps [simp del]

definition MapRow_div_assign ::
  "'a::{zero,divide} list \<Rightarrow> 'a list \<Rightarrow> (exn \<times> 'a list) + 'a list" where
  "MapRow_div_assign this other =
     MapRow_div_assign_loop 0 (min (length this) (length other)) this other"

subsection \<open>Map2D: the owning matrix (Map2D.hpp, class Map2D)\<close>

text \<open>
  \<^verbatim>\<open>Map2D<T>\<close> holds \<^verbatim>\<open>mRows\<close>, \<^verbatim>\<open>mCols\<close> and one contiguous row-major buffer
  \<^verbatim>\<open>pData\<close>.  The dimensions are of the signed type \<^verbatim>\<open>paramS\<close> in the source; every
  constructor clamps them to at least 1 (\<^verbatim>\<open>std::max<paramS>(1, std::abs(rows))\<close>), so
  they are carried as naturals.  A pointer into the buffer is its offset.
\<close>

record 'a Map2D =
  mRows :: nat
  mCols :: nat
  pData :: "'a list"

text \<open>\<^verbatim>\<open>size()\<close> is \<^verbatim>\<open>mRows * mCols\<close>.\<close>

definition Map2D_size :: "'a Map2D \<Rightarrow> nat" where
  "Map2D_size m = mRows m * mCols m"

text \<open>
  The class invariant set up by the private main constructor (lines 1122--1126)
  from the clamped dimensions: the buffer has \<^verbatim>\<open>rows * cols\<close> elements.
\<close>

definition Map2D_wf :: "'a Map2D \<Rightarrow> bool" where
  "Map2D_wf m = (1 \<le> mRows m \<and> 1 \<le> mCols m \<and> length (pData m) = mRows m * mCols m)"

text \<open>
  The trivial constructor \<^verbatim>\<open>Map2D(rows, cols)\<close>, lines 1133--1138, value-initialises
  the buffer (\<^verbatim>\<open>std::make_unique<T[]>\<close>).
\<close>

definition Map2D_new :: "int \<Rightarrow> int \<Rightarrow> 'a::zero Map2D" where
  "Map2D_new rows cols =
     (let r = nat (max 1 \<bar>rows\<bar>); c = nat (max 1 \<bar>cols\<bar>)
      in \<lparr>mRows = r, mCols = c, pData = replicate (r * c) 0\<rparr>)"

text \<open>
  \<^verbatim>\<open>std::fill(first, last, v)\<close> and \<^verbatim>\<open>std::copy_n(src, n, dst)\<close> on offsets into a
  buffer: the positions in range receive the new value, the others keep theirs.
\<close>

definition std_fill :: "nat \<Rightarrow> nat \<Rightarrow> 'a \<Rightarrow> 'a list \<Rightarrow> 'a list" where
  "std_fill first end v xs =
     map (\<lambda>i. if first \<le> i \<and> i < end then v else xs ! i) [0..<length xs]"

definition std_copy_n :: "'a list \<Rightarrow> nat \<Rightarrow> 'a list \<Rightarrow> 'a list" where
  "std_copy_n src n dst = map (\<lambda>i. if i < n then src ! i else dst ! i) [0..<length dst]"

text \<open>\<^verbatim>\<open>wipeAll()\<close>, lines 1425--1428: \<^verbatim>\<open>std::fill(mBegin(), mEnd(), T())\<close>.\<close>

definition Map2D_wipeAll :: "'a::zero Map2D \<Rightarrow> 'a Map2D" where
  "Map2D_wipeAll m = m\<lparr>pData := std_fill 0 (Map2D_size m) 0 (pData m)\<rparr>"

text \<open>
  \<^verbatim>\<open>copyLinear(const Map2D& other)\<close>, lines 1312--1318: the overlapping extent
  \<^verbatim>\<open>min(size(), other.size())\<close> is copied from the front.
\<close>

definition Map2D_copyLinear :: "'a Map2D \<Rightarrow> 'a Map2D \<Rightarrow> 'a Map2D" where
  "Map2D_copyLinear this other =
     (let nSize = min (Map2D_size this) (Map2D_size other)
      in this\<lparr>pData := std_copy_n (pData other) nSize (pData this)\<rparr>)"

subsection \<open>Map2D: copy assignment (Map2D.hpp, lines 1155--1161)\<close>

text \<open>
  The copy assignment tests \<^verbatim>\<open>this != &other && size() == other.size()\<close>, runs
  \<^verbatim>\<open>std::copy(other.begin(), other.end(), begin())\<close> over row iterators and then takes
  over the other matrix's \<^verbatim>\<open>mRows\<close> and \<^verbatim>\<open>mCols\<close>.  Each step of that copy is
  \<^verbatim>\<open>RowProxy::operator=(const RowProxy&)\<close>, lines 725--732, which takes its length from
  \<^verbatim>\<open>std::min(other.size(), static_cast<paramU>(mLength))\<close>.  There
  \<^verbatim>\<open>RowProxy::size()\<close> returns \<^verbatim>\<open>mLength\<close>, of the signed type \<^verbatim>\<open>paramS\<close>, and the second
  operand is of the unsigned type \<^verbatim>\<open>paramU\<close>, so no template argument can be deduced
  for \<^verbatim>\<open>std::min\<close> and the call is ill-formed for every element type.  The
  expression is the one of the overloads that take a \<^verbatim>\<open>MapRow\<close>, lines 736 and 743,
  whose \<^verbatim>\<open>size()\<close> is unsigned; the compound operators on two row proxies, lines
  761, 789 and on, take \<^verbatim>\<open>std::min(other.mLength, mLength)\<close>.  The copy assignment
  has no behaviour to embed and no definition is given for it; the copy
  constructor, lines 1143--1150, copies linearly from \<^verbatim>\<open>mBegin()\<close>.
\<close>

subsection \<open>Map2D: in-place transpose (Map2D.hpp, lines 1561--1573)\<close>

text \<open>
  The successor of an index in the body of the \<^verbatim>\<open>do\<close> loop:
  \<^verbatim>\<open>b = (b % mRows) * mCols + (b / mRows)\<close>.  The indices are \<^verbatim>\<open>std::size_t\<close>; below
  the size of the buffer the arithmetic does not overflow.
\<close>

definition transpose_next :: "nat \<Rightarrow> nat \<Rightarrow> nat \<Rightarrow> nat" where
  "transpose_next rows cols b = (b mod rows) * cols + b div rows"

text \<open>
  The \<^verbatim>\<open>do { ... } while (b < a)\<close> loop: the body runs once before the test, and
  the loop is left with the first successor that is not below \<open>a\<close>.  Nothing in
  the loop bounds the number of rounds, so the loop is a partial function and
  \<open>None\<close> stands for not returning.
\<close>

partial_function (option) transpose_follow :: "nat \<Rightarrow> nat \<Rightarrow> nat \<Rightarrow> nat \<Rightarrow> nat option" where
  "transpose_follow rows cols a b =
     (if transpose_next rows cols b < a
      then transpose_follow rows cols a (transpose_next rows cols b)
      else Some (transpose_next rows cols b))"
declare transpose_follow.simps [code]

text \<open>
  The \<^verbatim>\<open>for\<close> loop: \<open>a\<close> runs from 1 while \<^verbatim>\<open>a < size() - 1\<close>; each round follows
  the successors from \<open>a\<close> and swaps the elements at \<open>a\<close> and \<open>b\<close> when the two
  differ.  \<^verbatim>\<open>std::iter_swap\<close> on an offset outside the buffer is an out-of-bounds
  access (\<open>None\<close>).
\<close>

function transpose_loop :: "nat \<Rightarrow> nat \<Rightarrow> nat \<Rightarrow> nat \<Rightarrow> 'a list \<Rightarrow> 'a list option" where
  "transpose_loop rows cols sz a buf =
     (if a < sz - 1
      then (case transpose_follow rows cols a a of
              None \<Rightarrow> None
            | Some b \<Rightarrow>
                if b \<noteq> a
                then (if a < length buf \<and> b < length buf
                      then transpose_loop rows cols sz (a + 1) (buf[a := buf ! b, b := buf ! a])
                      else None)
                else transpose_loop rows cols sz (a + 1) buf)
      else Some buf)"
  by pat_completeness auto
termination
  by (relation "measure (\<lambda>(rows, cols, sz, a, buf). sz - 1 - a)") auto
declare transpose_loop.simps [simp del]

text \<open>
  \<^verbatim>\<open>transpose()\<close>: the loop is entered when a dimension exceeds 1, and the stored
  row and column counts are swapped in every case.
\<close>

definition Map2D_transpose :: "'a Map2D \<Rightarrow> 'a Map2D option" where
  "Map2D_transpose m =
     (case (if 1 < mRows m \<or> 1 < mCols m
            then transpose_loop (mRows m) (mCols m) (Map2D_size m) 1 (pData m)
            else Some (pData m)) of
        None \<Rightarrow> None
      | Some buf \<Rightarrow> Some \<lparr>mRows = mCols m, mCols = mRows m, pData = buf\<rparr>)"

text \<open>
  For the correctness of the loops: \<open>transpose_hits rows cols a p m\<close> says that the
  successor of \<open>p\<close> taken \<open>m + 1\<close> times is the first one not below \<open>a\<close>, the index
  at which the \<^verbatim>\<open>do\<close> loop started from \<open>p\<close> with bound \<open>a\<close> stops.
\<close>

definition transpose_hits :: "nat \<Rightarrow> nat \<Rightarrow> nat \<Rightarrow> nat \<Rightarrow> nat \<Rightarrow> bool" where
  "transpose_hits R C a p m =
     (a \<le> (transpose_next R C ^^ Suc m) p \<and> (\<forall>j<m. (transpose_next R C ^^ Suc j) p < a))"

text \<open>
  The invariant of the \<^verbatim>\<open>for\<close> loop before round \<open>a\<close>: every position below \<open>a\<close>
  holds its final element, and the element due at a position \<open>p\<close> from \<open>a\<close> on
  sits where the \<^verbatim>\<open>do\<close> loop started from \<open>p\<close> stops.
\<close>

definition transpose_inv :: "nat \<Rightarrow> nat \<Rightarrow> 'a list \<Rightarrow> nat \<Rightarrow> 'a list \<Rightarrow> bool" where
  "transpose_inv R C orig a cur =
     (length cur = R * C \<and>
      (\<forall>i<a. cur ! i = orig ! transpose_next R C i) \<and>
      (\<forall>p m. a \<le> p \<and> p < R * C \<and> transpose_hits R C a p m \<longrightarrow>
           cur ! ((transpose_next R C ^^ Suc m) p) = orig ! transpose_next R C p))"

subsection \<open>RowProxy and the row iterator (Map2D.hpp, classes RowProxy, RowIterator)\<close>

text \<open>
  A \<^verbatim>\<open>RowProxy\<close> is the pair of \<^verbatim>\<open>mBegin\<close> (here the offset of the row in the
  buffer) and \<^verbatim>\<open>mLength\<close>.  Its compound bitwise operators with a scalar are
  \<^verbatim>\<open>for (T& elem : *this) elem OP= value\<close>, lines 915--922, 943--950 and 971--978; the
  loop visits the offsets \<^verbatim>\<open>mBegin\<close> up to \<^verbatim>\<open>mBegin + mLength\<close> in order.  The scalar is
  the \<^verbatim>\<open>int\<close> of the call site and is converted to the element type by the
  assignment.
\<close>

definition RowProxy_and_assign :: "nat \<Rightarrow> nat \<Rightarrow> int \<Rightarrow> 'a::len word list \<Rightarrow> 'a word list" where
  "RowProxy_and_assign mBegin mLength v buf =
     fold (\<lambda>i d. d[i := and (d ! i) (word_of_int v)]) [mBegin..<mBegin + mLength] buf"

definition RowProxy_or_assign :: "nat \<Rightarrow> nat \<Rightarrow> int \<Rightarrow> 'a::len word list \<Rightarrow> 'a word list" where
  "RowProxy_or_assign mBegin mLength v buf =
     fold (\<lambda>i d. d[i := or (d ! i) (word_of_int v)]) [mBegin..<mBegin + mLength] buf"

definition RowProxy_xor_assign :: "nat \<Rightarrow> nat \<Rightarrow> int \<Rightarrow> 'a::len word list \<Rightarrow> 'a word list" where
  "RowProxy_xor_assign mBegin mLength v buf =
     fold (\<lambda>i d. d[i := xor (d ! i) (word_of_int v)]) [mBegin..<mBegin + mLength] buf"

text \<open>
  \<^verbatim>\<open>for (auto& row : m) body\<close> runs a \<^verbatim>\<open>RowIterator\<close> from offset 0 in steps of
  \<^verbatim>\<open>mCols\<close> until it meets \<^verbatim>\<open>mEnd()\<close>, the offset \<^verbatim>\<open>mRows * mCols\<close>: one row proxy
  of length \<^verbatim>\<open>mCols\<close> per row index below \<^verbatim>\<open>mRows\<close>.  The body receives the proxy
  and the buffer.
\<close>

definition Map2D_for_rows :: "(nat \<Rightarrow> nat \<Rightarrow> 'a list \<Rightarrow> 'a list) \<Rightarrow> 'a Map2D \<Rightarrow> 'a Map2D" where
  "Map2D_for_rows body m =
     m\<lparr>pData := fold (\<lambda>row d. body (row * mCols m) (mCols m) d) [0..<mRows m] (pData m)\<rparr>"

subsection \<open>MemoryBanks: display planes, palette and buffers (MemoryBanks.cpp)\<close>

text \<open>
  Modelled from the spec: the members of \<^verbatim>\<open>MemoryBanks\<close> and the parts of
  \<^verbatim>\<open>VM_Guest\<close> it reads.  \<^verbatim>\<open>MemoryBanks.hpp\<close> and \<^verbatim>\<open>Guest.hpp\<close> are not among the
  sources, so the element types of the buffers are type parameters, the palette
  is a table of 32-bit ARGB entries whose capacity is the length of the list, and
  of the guest only what \<^verbatim>\<open>MemoryBanks.cpp\<close> touches is kept: the multicolor flag
  \<^verbatim>\<open>State.xochip_color\<close>, the plane mask \<^verbatim>\<open>Plane.selected\<close>, the byte read
  \<^verbatim>\<open>mrw\<close> of guest memory, and a count of the \<^verbatim>\<open>flushDisplay()\<close> signals.
  \<^verbatim>\<open>vm->Mem\<close> is the bank object itself.
\<close>

record ('p, 'c, 'k) MemoryBanks =
  displayBuffer :: "'p Map2D list"
  foregroundBuffer :: "'c Map2D"
  backgroundBuffer :: "'c Map2D"
  collisionPalette :: "'k Map2D"
  megaPalette :: "32 word list"

record VM_Guest =
  xochip_color :: bool
  Plane_selected :: int
  mrw :: "32 word \<Rightarrow> 8 word"
  flushDisplay_count :: nat

datatype BrushType = CLR | XOR | SUB | ADD

definition flushDisplay :: "VM_Guest \<Rightarrow> VM_Guest" where
  "flushDisplay vm = vm\<lparr>flushDisplay_count := flushDisplay_count vm + 1\<rparr>"

text \<open>
  \<^verbatim>\<open>modifyViewport\<close>, lines 49--73.  The loop runs \<^verbatim>\<open>P\<close> over 0 to 3; a plane is
  touched when \<^verbatim>\<open>Plane.selected & (1 << P)\<close> is not zero.  \<^verbatim>\<open>~1\<close> is the \<^verbatim>\<open>int\<close>
  \<open>not 1\<close>.
\<close>

definition modifyViewport_plane :: "BrushType \<Rightarrow> 'p::len word Map2D \<Rightarrow> 'p word Map2D" where
  "modifyViewport_plane type plane =
     (case type of
        CLR \<Rightarrow> Map2D_wipeAll plane
      | XOR \<Rightarrow> Map2D_for_rows (\<lambda>mBegin mLength. RowProxy_xor_assign mBegin mLength 1) plane
      | SUB \<Rightarrow> Map2D_for_rows (\<lambda>mBegin mLength. RowProxy_and_assign mBegin mLength (not 1)) plane
      | ADD \<Rightarrow> Map2D_for_rows (\<lambda>mBegin mLength. RowProxy_or_assign mBegin mLength 1) plane)"

function modifyViewport_loop ::
  "VM_Guest \<Rightarrow> BrushType \<Rightarrow> nat \<Rightarrow> ('p::len word, 'c, 'k) MemoryBanks \<Rightarrow> ('p word, 'c, 'k) MemoryBanks" where
  "modifyViewport_loop vm type P mb =
     (if P < 4
      then modifyViewport_loop vm type (P + 1)
             (if and (Plane_selected vm) (push_bit P 1) \<noteq> 0
              then mb\<lparr>displayBuffer :=
                        (displayBuffer mb)[P := modifyViewport_plane type (displayBuffer mb ! P)]\<rparr>
              else mb)
      else mb)"
  by pat_completeness auto
termination
  by (relation "measure (\<lambda>(vm, type, P, mb). 4 - P)") auto
declare modifyViewport_loop.simps [simp del]

definition modifyViewport ::
  "VM_Guest \<Rightarrow> BrushType \<Rightarrow> ('p::len word, 'c, 'k) MemoryBanks \<Rightarrow> ('p word, 'c, 'k) MemoryBanks" where
  "modifyViewport vm type mb =
     (if \<not> xochip_color vm
      then mb\<lparr>displayBuffer := (displayBuffer mb)[0 := Map2D_wipeAll (displayBuffer mb ! 0)]\<rparr>
      else modifyViewport_loop vm type 0 mb)"

text \<open>
  \<^verbatim>\<open>flushBuffers\<close>, lines 75--86: the palette is cleared on the first flush, the
  linear copy is the other branch of the same \<^verbatim>\<open>if\<close>; the two wipes and the
  signal follow in both cases.
\<close>

definition flushBuffers ::
  "bool \<Rightarrow> VM_Guest \<times> ('p, 'c::zero, 'k::zero) MemoryBanks \<Rightarrow> VM_Guest \<times> ('p, 'c, 'k) MemoryBanks" where
  "flushBuffers firstFlush s =
     (let vm = fst s; mb = snd s;
          mb1 = (if firstFlush
                 then mb\<lparr>megaPalette := map (\<lambda>elem. 0) (megaPalette mb)\<rparr>
                 else mb\<lparr>foregroundBuffer :=
                           Map2D_copyLinear (foregroundBuffer mb) (backgroundBuffer mb)\<rparr>);
          mb2 = mb1\<lparr>backgroundBuffer := Map2D_wipeAll (backgroundBuffer mb1)\<rparr>;
          mb3 = mb2\<lparr>collisionPalette := Map2D_wipeAll (collisionPalette mb2)\<rparr>
      in (flushDisplay vm, mb3))"

text \<open>
  \<^verbatim>\<open>loadPalette\<close>, lines 88--95.  \<^verbatim>\<open>idx\<close> is incremented before it indexes the
  table, \<^verbatim>\<open>index\<close> advances by 4 in 32-bit arithmetic, and the four bytes are
  joined most significant first.  \<^verbatim>\<open>megaPalette[...]\<close> is unchecked: a slot past
  the table's capacity is an out-of-bounds write, for which the model has \<open>None\<close>.
\<close>

definition loadPalette_entry :: "(32 word \<Rightarrow> 8 word) \<Rightarrow> 32 word \<Rightarrow> 32 word" where
  "loadPalette_entry rd index =
     or (push_bit 24 (ucast (rd (index + 0))))
        (or (push_bit 16 (ucast (rd (index + 1))))
            (or (push_bit 8 (ucast (rd (index + 2))))
                (ucast (rd (index + 3)))))"

function loadPalette_loop ::
  "VM_Guest \<Rightarrow> nat \<Rightarrow> 32 word \<Rightarrow> 32 word \<Rightarrow> 32 word list \<Rightarrow> 32 word list option" where
  "loadPalette_loop vm idx index count pal =
     (if idx < unat count
      then (if idx + 1 < length pal
            then loadPalette_loop vm (idx + 1) (index + 4) count
                   (pal[idx + 1 := loadPalette_entry (mrw vm) index])
            else None)
      else Some pal)"
  by pat_completeness auto
termination
  by (relation "measure (\<lambda>(vm, idx, index, count, pal). unat count - idx)") auto
declare loadPalette_loop.simps [simp del]

definition loadPalette ::
  "VM_Guest \<Rightarrow> 32 word \<Rightarrow> 32 word \<Rightarrow> ('p, 'c, 'k) MemoryBanks \<Rightarrow> ('p, 'c, 'k) MemoryBanks option" where
  "loadPalette vm index count mb =
     (case loadPalette_loop vm 0 index count (megaPalette mb) of
        None \<Rightarrow> None
      | Some pal \<Rightarrow> Some (mb\<lparr>megaPalette := pal\<rparr>))"

subsection \<open>HomeDirManager: the program descriptor (HomeDirManager.cpp)\<close>

text \<open>
  The members of \<^verbatim>\<open>HomeDirManager\<close> (HomeDirManager.hpp, lines 17--23), named as the
  host reads them (\<^verbatim>\<open>HDM.path\<close>, \<^verbatim>\<open>HDM.file\<close>, ...).
\<close>

record HomeDirManager =
  HDM_permRegs :: string
  HDM_path :: string
  HDM_file :: string
  HDM_name :: string
  HDM_type :: string
  HDM_sha1 :: string
  HDM_size :: "64 word"

text \<open>
  What \<^verbatim>\<open>verifyFile\<close> asks of the platform, as functions of the path:
  \<^verbatim>\<open>std::filesystem::exists\<close>, \<^verbatim>\<open>is_regular_file\<close>, whether the \<^verbatim>\<open>std::ifstream\<close>
  \<^verbatim>\<open>is_open()\<close> and is \<^verbatim>\<open>good()\<close>, \<^verbatim>\<open>file_size(path, error)\<close> (the error flag and the
  size), the parts of the \<^verbatim>\<open>std::filesystem::path\<close>, and \<^verbatim>\<open>SHA1::from_file\<close>.
\<close>

record FileSystem =
  fs_exists :: "string \<Rightarrow> bool"
  fs_is_regular_file :: "string \<Rightarrow> bool"
  ifstream_is_open :: "string \<Rightarrow> bool"
  ifstream_good :: "string \<Rightarrow> bool"
  fs_file_size :: "string \<Rightarrow> bool \<times> 64 word"
  fspath_string :: "string \<Rightarrow> string"
  fspath_extension :: "string \<Rightarrow> string"
  fspath_filename :: "string \<Rightarrow> string"
  fspath_stem :: "string \<Rightarrow> string"
  SHA1_from_file :: "string \<Rightarrow> string"

text \<open>
  Modelled from the spec: the log facility \<^verbatim>\<open>blog\<close> (BasicLogger.hpp is not among
  the sources) is its two append-only streams of lines.
\<close>

record BasicLogger =
  stdLog :: "string list"
  dbgLog :: "string list"

definition stdLogOut :: "string \<Rightarrow> BasicLogger \<Rightarrow> BasicLogger" where
  "stdLogOut line l = l\<lparr>stdLog := stdLog l @ [line]\<rparr>"

definition dbgLogOut :: "string \<Rightarrow> BasicLogger \<Rightarrow> BasicLogger" where
  "dbgLogOut line l = l\<lparr>dbgLog := dbgLog l @ [line]\<rparr>"

text \<open>
  The validator is a function pointer; it may read and write state of its own
  (\<^verbatim>\<open>GameFileChecker::validate\<close> records the core and the reason), so it maps that
  state to its result and the new state.  The world of one call holds the manager,
  the log, the validator's state and the list of the argument triples the
  validator has been invoked with.
\<close>

record 'g World =
  HDM :: HomeDirManager
  blog :: BasicLogger
  validator_state :: 'g
  validator_calls :: "(64 word \<times> string \<times> string) list"

text \<open>
  \<^verbatim>\<open>verifyFile\<close> (HomeDirManager.cpp).  The path argument is
  a \<^verbatim>\<open>const char*\<close>: \<open>None\<close> is the null pointer.
\<close>

definition verifyFile ::
  "FileSystem \<Rightarrow> (64 word \<Rightarrow> string \<Rightarrow> string \<Rightarrow> 'g \<Rightarrow> bool \<times> 'g) \<Rightarrow> string option \<Rightarrow>
   'g World \<Rightarrow> bool \<times> 'g World" where
  "verifyFile fs validate filepath w =
     (case filepath of
        None \<Rightarrow> (False, w)
      | Some fspath \<Rightarrow>
          let w1 = w\<lparr>blog := stdLogOut (''Attempting to access file: '' @ fspath_string fs fspath) (blog w)\<rparr>
          in if \<not> fs_exists fs fspath \<or> \<not> fs_is_regular_file fs fspath
             then (False, w1\<lparr>blog := dbgLogOut (''Unable to use locate path: '' @ fspath_string fs fspath) (blog w1)\<rparr>)
             else if \<not> ifstream_is_open fs fspath
             then (False, w1\<lparr>blog := dbgLogOut (''Failed to open file: '' @ fspath_string fs fspath) (blog w1)\<rparr>)
             else if \<not> ifstream_good fs fspath
             then (False, w1\<lparr>blog := dbgLogOut (''File is not readable: '' @ fspath_string fs fspath) (blog w1)\<rparr>)
             else
               let error = fst (fs_file_size fs fspath);
                   fileSize = snd (fs_file_size fs fspath)
               in if error
                  then (False, w1\<lparr>blog := dbgLogOut (''Unable to access file: '' @ fspath_string fs fspath) (blog w1)\<rparr>)
                  else if fileSize = 0
                  then (False, w1\<lparr>blog := dbgLogOut (''File is empty: '' @ fspath_string fs fspath) (blog w1)\<rparr>)
                  else
                    let tempPath = fspath_string fs fspath;
                        tempType = fspath_extension fs fspath;
                        tempSHA1 = SHA1_from_file fs tempPath;
                        called = validate fileSize tempType tempSHA1 (validator_state w1);
                        result = fst called;
                        w2 = w1\<lparr>validator_state := snd called,
                                validator_calls := validator_calls w1 @ [(fileSize, tempType, tempSHA1)]\<rparr>
                    in if result
                       then (result,
                             w2\<lparr>HDM := (HDM w2)\<lparr>HDM_path := tempPath,
                                                  HDM_file := fspath_filename fs fspath,
                                                  HDM_name := fspath_stem fs fspath,
                                                  HDM_type := tempType,
                                                  HDM_sha1 := tempSHA1,
                                                  HDM_size := fileSize\<rparr>\<rparr>)
                       else (result, w2))"

text \<open>\<^verbatim>\<open>reset()\<close>, lines 1705--1708.\<close>

definition HomeDirManager_reset :: "HomeDirManager \<Rightarrow> HomeDirManager" where
  "HomeDirManager_reset h = h\<lparr>HDM_path := [], HDM_name := [], HDM_type := [], HDM_sha1 := [], HDM_size := 0\<rparr>"

subsection \<open>FrameLimiter: the frame pacer (FrameLimiter.cpp)\<close>

text \<open>
  A \<^verbatim>\<open>double\<close> is a NaN, one of the two infinities, or a finite number, which is
  carried as a real: the special values of IEEE-754 are in the model, its rounding
  and the sign of zero are not (the zero of the model is the positive one).  A
  comparison with a NaN operand is false and an operation with a NaN operand gives
  NaN.
\<close>

datatype double = NaN | MInf | PInf | Fin real

fun double_less :: "double \<Rightarrow> double \<Rightarrow> bool" where
  "double_less (Fin a) (Fin b) = (a < b)"
| "double_less (Fin a) PInf = True"
| "double_less MInf (Fin b) = True"
| "double_less MInf PInf = True"
| "double_less x y = False"

fun double_uminus :: "double \<Rightarrow> double" where
  "double_uminus NaN = NaN"
| "double_uminus MInf = PInf"
| "double_uminus PInf = MInf"
| "double_uminus (Fin a) = Fin (- a)"

fun double_plus :: "double \<Rightarrow> double \<Rightarrow> double" where
  "double_plus (Fin a) (Fin b) = Fin (a + b)"
| "double_plus NaN y = NaN"
| "double_plus x NaN = NaN"
| "double_plus PInf MInf = NaN"
| "double_plus MInf PInf = NaN"
| "double_plus PInf y = PInf"
| "double_plus x PInf = PInf"
| "double_plus MInf y = MInf"
| "double_plus x MInf = MInf"

definition double_minus :: "double \<Rightarrow> double \<Rightarrow> double" where
  "double_minus x y = double_plus x (double_uminus y)"

fun double_divide :: "double \<Rightarrow> double \<Rightarrow> double" where
  "double_divide (Fin a) (Fin b) =
     (if b \<noteq> 0 then Fin (a / b)
      else if a = 0 then NaN else if 0 < a then PInf else MInf)"
| "double_divide NaN y = NaN"
| "double_divide x NaN = NaN"
| "double_divide (Fin a) y = Fin 0"
| "double_divide PInf (Fin b) = (if 0 \<le> b then PInf else MInf)"
| "double_divide MInf (Fin b) = (if 0 \<le> b then MInf else PInf)"
| "double_divide x y = NaN"

text \<open>
  \<^verbatim>\<open>std::fmod(x, y)\<close>: for finite \<open>x\<close> and finite nonzero \<open>y\<close> the remainder
  \<open>x - n * y\<close> with \<open>n\<close> the quotient \<open>x / y\<close> truncated towards zero, which a double
  holds exactly; \<open>x\<close> itself for finite \<open>x\<close> and infinite \<open>y\<close>; NaN otherwise.
\<close>

definition fmod_finite :: "real \<Rightarrow> real \<Rightarrow> real" where
  "fmod_finite x y = x - y * of_int (if 0 \<le> x / y then \<lfloor>x / y\<rfloor> else \<lceil>x / y\<rceil>)"

fun std_fmod :: "double \<Rightarrow> double \<Rightarrow> double" where
  "std_fmod (Fin x) (Fin y) = (if y = 0 then NaN else Fin (fmod_finite x y))"
| "std_fmod (Fin x) PInf = Fin x"
| "std_fmod (Fin x) MInf = Fin x"
| "std_fmod x y = NaN"

text \<open>
  \<^verbatim>\<open>std::clamp(v, lo, hi)\<close> is \<^verbatim>\<open>(v < lo) ? lo : (hi < v) ? hi : v\<close>: both comparisons
  are false on a NaN, which is returned as it is.
\<close>

definition std_clamp :: "double \<Rightarrow> double \<Rightarrow> double \<Rightarrow> double" where
  "std_clamp v lo hi = (if double_less v lo then lo else if double_less hi v then hi else v)"

text \<open>
  The members as FrameLimiter.hpp declares them.  A time point of the steady clock
  is its distance from the clock's epoch in milliseconds, and the elapsed time
  between two of them is a finite double.  The sum and the quotient are rounded
  in the source and exact here; the quotient of 1000 by a rate between 0.5 and
  1000 stays between 1 and 2000 under rounding too.  The frame counter is a
  \<^verbatim>\<open>std::uint64_t\<close>.
\<close>

record FrameLimiter =
  initTimeCheck :: bool
  skipFirstPass :: bool
  skipLostFrame :: bool
  lastFrameLost :: bool
  timeFrequency :: double
  timeOvershoot :: double
  timeVariation :: double
  timePastFrame :: real
  validFrameCnt :: "64 word"

text \<open>\<^verbatim>\<open>setFreq\<close>, lines 12--20, and the constructor, lines 4--10, on zeroed members.\<close>

definition setFreq :: "double \<Rightarrow> bool \<Rightarrow> bool \<Rightarrow> FrameLimiter \<Rightarrow> FrameLimiter" where
  "setFreq framerate firstpass lostframe s =
     s\<lparr>timeFrequency := double_divide (Fin 1000) (std_clamp framerate (Fin (1 / 2)) (Fin 1000)),
       skipFirstPass := firstpass,
       skipLostFrame := lostframe\<rparr>"

definition FrameLimiter_new :: "double \<Rightarrow> bool \<Rightarrow> bool \<Rightarrow> FrameLimiter" where
  "FrameLimiter_new framerate firstpass lostframe =
     setFreq framerate firstpass lostframe
       \<lparr>initTimeCheck = False, skipFirstPass = False, skipLostFrame = False,
        lastFrameLost = False, timeFrequency = Fin 0, timeOvershoot = Fin 0,
        timeVariation = Fin 0, timePastFrame = 0, validFrameCnt = 0\<rparr>"

text \<open>
  \<^verbatim>\<open>isValidFrame\<close>, lines 30--60.  The function reads \<^verbatim>\<open>steady_clock::now()\<close> at
  three places; the three readings are its first argument, in the order of the
  source: for the first time stamp, for the elapsed time, for the new time stamp.
  \<^verbatim>\<open>operator()\<close>, lines 22--28, returns what \<^verbatim>\<open>isValidFrame\<close> returns and may sleep
  before it returns false, which changes no member.
\<close>

definition isValidFrame :: "real \<times> real \<times> real \<Rightarrow> FrameLimiter \<Rightarrow> bool \<times> FrameLimiter" where
  "isValidFrame now s0 =
     (let s1 = (if \<not> initTimeCheck s0
                then s0\<lparr>timePastFrame := fst now, initTimeCheck := True\<rparr>
                else s0)
      in if skipFirstPass s1
         then (True, s1\<lparr>skipFirstPass := False, validFrameCnt := validFrameCnt s1 + 1\<rparr>)
         else
           let s2 = s1\<lparr>timeVariation :=
                        double_plus (timeOvershoot s1) (Fin (fst (snd now) - timePastFrame s1))\<rparr>
           in if double_less (timeVariation s2) (timeFrequency s2)
              then (False, s2)
              else
                let s3 = (if skipLostFrame s2
                          then s2\<lparr>timeOvershoot := std_fmod (timeVariation s2) (timeFrequency s2)\<rparr>
                          else s2\<lparr>timeOvershoot := double_minus (timeVariation s2) (timeFrequency s2)\<rparr>)
                in (True, s3\<lparr>timePastFrame := snd (snd now), validFrameCnt := validFrameCnt s3 + 1\<rparr>))"

text \<open>A pacer's life after construction: one pacing check per triple of clock readings.\<close>

fun isValidFrame_run :: "(real \<times> real \<times> real) list \<Rightarrow> FrameLimiter \<Rightarrow> FrameLimiter" where
  "isValidFrame_run [] s = s"
| "isValidFrame_run (now # nows) s = isValidFrame_run nows (snd (isValidFrame now s))"

text \<open>
  The pacing invariant of a limiter that skips lost frames: the period is a
  number in range and the stored overshoot is a number within one period.
\<close>

definition paced :: "FrameLimiter \<Rightarrow> bool" where
  "paced s = (skipLostFrame s \<and>
     (case (timeFrequency s, timeOvershoot s) of
        (Fin p, Fin v) \<Rightarrow> 1 \<le> p \<and> p \<le> 2000 \<and> 0 \<le> v \<and> v < p
      | _ \<Rightarrow> False))"

subsection \<open>GameFileChecker: the detector's static state (GameFileChecker.hpp)\<close>

datatype GameCoreType =
    INVALID
  | XOCHIP | CHIP8E | CHIP8X
  | CHIP8_2P | CHIP8_4P
  | CHIP8_LEGACY | SCHIP_LEGACY
  | CHIP8_MODERN | SCHIP_MODERN
  | CHIP8X_HIRES | CHIP8X_SCHIP
  | HWCHIP64 | MEGACHIP | GIGACHIP

text \<open>The two static members \<^verbatim>\<open>sErrorMsg\<close> and \<^verbatim>\<open>sEmuCore\<close>.\<close>

record GameFileChecker =
  sErrorMsg :: string
  sEmuCore :: GameCoreType

text \<open>
  \<^verbatim>\<open>getError()\<close> is \<^verbatim>\<open>return std::move(sErrorMsg);\<close> with a deduced by-value
  return type: the result is move-constructed from the static string, which the
  move leaves empty (the moved-from state of \<^verbatim>\<open>std::string\<close> in libstdc++,
  libc++ and the MSVC library).  The function returns the value and the new state.
\<close>

definition getError :: "GameFileChecker \<Rightarrow> string \<times> GameFileChecker" where
  "getError s = (sErrorMsg s, s\<lparr>sErrorMsg := []\<rparr>)"

definition getCore :: "GameFileChecker \<Rightarrow> GameCoreType" where
  "getCore s = sEmuCore s"

definition delCore :: "GameFileChecker \<Rightarrow> GameFileChecker" where
  "delCore s = s\<lparr>sErrorMsg := [], sEmuCore := INVALID\<rparr>"

definition hasCore :: "GameFileChecker \<Rightarrow> bool" where
  "hasCore s = (sEmuCore s \<noteq> INVALID)"

definition testGame :: "bool \<Rightarrow> GameCoreType \<Rightarrow> GameFileChecker \<Rightarrow> bool \<times> GameFileChecker" where
  "testGame pass type s = (pass, if pass then s\<lparr>sEmuCore := type\<rparr> else s)"

section \<open>Properties\<close>

subsection \<open>MapRow: subtraction\<close>

lemma MapRow_sub_assign_loop_run:
  "len \<le> length this \<Longrightarrow>
   MapRow_sub_assign_loop i len this other =
     map (\<lambda>j. if i \<le> j \<and> j < len then this ! j + other ! j else this ! j) [0..<length this]"
proof (induction i len this other rule: MapRow_sub_assign_loop.induct)
  case (1 i len this other)
  show ?case
  proof (cases "i < len")
    case False
    have "MapRow_sub_assign_loop i len this other = this"
      using False by (subst MapRow_sub_assign_loop.simps) simp
    then show ?thesis using False by (auto intro!: nth_equalityI)
  next
    case True
    let ?this' = "this[i := this ! i + other ! i]"
    have step: "MapRow_sub_assign_loop i len this other = MapRow_sub_assign_loop (i + 1) len ?this' other"
      using True by (subst MapRow_sub_assign_loop.simps) simp
    have IH: "MapRow_sub_assign_loop (i + 1) len ?this' other =
        map (\<lambda>j. if i + 1 \<le> j \<and> j < len then ?this' ! j + other ! j else ?this' ! j) [0..<length ?this']"
      using "1.IH" [OF True] "1.prems" by simp
    have eq: "map (\<lambda>j. if i + 1 \<le> j \<and> j < len then ?this' ! j + other ! j else ?this' ! j) [0..<length ?this']
        = map (\<lambda>j. if i \<le> j \<and> j < len then this ! j + other ! j else this ! j) [0..<length this]"
      using True "1.prems" by (auto simp: nth_list_update)
    show ?thesis unfolding step IH eq ..
  qed
qed

text \<open>What the compound subtraction computes on every pair of rows: the sum.\<close>

lemma MapRow_sub_assign_adds:
  "length (MapRow_sub_assign a b) = length a \<and>
   (\<forall>i<length a. MapRow_sub_assign a b ! i =
      (if i < min (length a) (length b) then a ! i + b ! i else a ! i))"
  unfolding MapRow_sub_assign_def
  by (simp add: MapRow_sub_assign_loop_run)

text \<open>
  Claim C1.  The claim asks \<^verbatim>\<open>a -= b\<close> to store \<open>a[i] - b[i]\<close>.  On the rows
  \<open>[5]\<close> and \<open>[3]\<close> of 32-bit unsigned elements the compound operator of the
  source stores \<open>8\<close>, the sum, where the difference is \<open>2\<close>; the value-returning
  operator \<^verbatim>\<open>a - b\<close> of the same class returns \<open>[2]\<close>.
\<close>

theorem MapRow_sub_assign_diverges:
  "MapRow_sub_assign [5::32 word] [3] = [8] \<and> MapRow_sub [5::32 word] [3] = [2]"
  by (simp add: MapRow_sub_assign_def MapRow_sub_assign_loop.simps
      MapRow_sub_def MapRow_sub_loop.simps)

subsection \<open>MapRow: division\<close>

lemma MapRow_div_assign_loop_run:
  "i \<le> k \<Longrightarrow> k \<le> len \<Longrightarrow> len \<le> length this \<Longrightarrow>
   (\<forall>j. i \<le> j \<and> j < k \<longrightarrow> other ! j \<noteq> 0) \<Longrightarrow>
   (k < len \<longrightarrow> other ! k = 0) \<Longrightarrow>
   MapRow_div_assign_loop i len this other =
     (let r = map (\<lambda>j. if i \<le> j \<and> j < k then this ! j div other ! j else this ! j) [0..<length this]
      in if k < len then Inl (domain_error ''division by zero'', r) else Inr r)"
proof (induction i len this other rule: MapRow_div_assign_loop.induct)
  case (1 i len this other)
  show ?case
  proof (cases "i < len")
    case False
    with "1.prems" have ik: "k = i" "i = len" by auto
    have "MapRow_div_assign_loop i len this other = Inr this"
      using False by (subst MapRow_div_assign_loop.simps) simp
    then show ?thesis using ik by (auto intro!: nth_equalityI)
  next
    case True
    show ?thesis
    proof (cases "other ! i = 0")
      case z: True
      with "1.prems" have ik: "k = i" by (metis le_neq_implies_less le_refl)
      have "MapRow_div_assign_loop i len this other = Inl (domain_error ''division by zero'', this)"
        using True z by (subst MapRow_div_assign_loop.simps) simp
      then show ?thesis using ik True by (auto intro!: nth_equalityI)
    next
      case nz: False
      with "1.prems" True have ik: "i + 1 \<le> k" by (metis Suc_eq_plus1 Suc_leI le_neq_implies_less)
      let ?this' = "this[i := this ! i div other ! i]"
      have step: "MapRow_div_assign_loop i len this other = MapRow_div_assign_loop (i + 1) len ?this' other"
        using True nz by (subst MapRow_div_assign_loop.simps) simp
      have IH: "MapRow_div_assign_loop (i + 1) len ?this' other =
        (let r = map (\<lambda>j. if i + 1 \<le> j \<and> j < k then ?this' ! j div other ! j else ?this' ! j) [0..<length ?this']
         in if k < len then Inl (domain_error ''division by zero'', r) else Inr r)"
        using "1.IH" [OF True nz ik] "1.prems" by simp
      have eq: "map (\<lambda>j. if i + 1 \<le> j \<and> j < k then ?this' ! j div other ! j else ?this' ! j) [0..<length ?this']
          = map (\<lambda>j. if i \<le> j \<and> j < k then this ! j div other ! j else this ! j) [0..<length this]"
        using ik "1.prems" by (auto simp: nth_list_update)
      show ?thesis unfolding step IH eq ..
    qed
  qed
qed

text \<open>
  Claim C7.  The in-place row division \<^verbatim>\<open>a /= b\<close> throws the domain error exactly
  when some divisor at an index below \<open>min (length a) (length b)\<close> is zero.  When
  it throws at the first such index \<open>k\<close>, the row it leaves behind has every element
  before \<open>k\<close> replaced by its quotient and every element from \<open>k\<close> on as it was;
  no rollback takes place.  When no divisor is zero, the elements below the common
  length are the quotients and the rest is unchanged.
\<close>

theorem MapRow_div_assign_partial:
  fixes a b :: "'a::{zero,divide} list"
  shows
  "(isl (MapRow_div_assign a b) \<longleftrightarrow> (\<exists>k<min (length a) (length b). b ! k = 0)) \<and>
   (\<forall>k. k < min (length a) (length b) \<and> b ! k = 0 \<and> (\<forall>j<k. b ! j \<noteq> 0) \<longrightarrow>
      (\<exists>r. MapRow_div_assign a b = Inl (domain_error ''division by zero'', r) \<and>
           length r = length a \<and>
           (\<forall>i<k. r ! i = a ! i div b ! i) \<and>
           (\<forall>i. k \<le> i \<and> i < length a \<longrightarrow> r ! i = a ! i))) \<and>
   ((\<forall>k<min (length a) (length b). b ! k \<noteq> 0) \<longrightarrow>
      (\<exists>r. MapRow_div_assign a b = Inr r \<and>
           length r = length a \<and>
           (\<forall>i<min (length a) (length b). r ! i = a ! i div b ! i) \<and>
           (\<forall>i. min (length a) (length b) \<le> i \<and> i < length a \<longrightarrow> r ! i = a ! i)))"
proof -
  let ?len = "min (length a) (length b)"
  have raise: "\<exists>r. MapRow_div_assign a b = Inl (domain_error ''division by zero'', r) \<and>
           length r = length a \<and>
           (\<forall>i<k. r ! i = a ! i div b ! i) \<and>
           (\<forall>i. k \<le> i \<and> i < length a \<longrightarrow> r ! i = a ! i)"
    if "k < ?len" "b ! k = 0" "\<forall>j<k. b ! j \<noteq> 0" for k
  proof -
    have "MapRow_div_assign a b =
      Inl (domain_error ''division by zero'',
           map (\<lambda>j. if 0 \<le> j \<and> j < k then a ! j div b ! j else a ! j) [0..<length a])"
      unfolding MapRow_div_assign_def
      using MapRow_div_assign_loop_run [of 0 k ?len a b] that by simp
    then show ?thesis using that by simp
  qed
  have fine: "\<exists>r. MapRow_div_assign a b = Inr r \<and>
           length r = length a \<and>
           (\<forall>i<?len. r ! i = a ! i div b ! i) \<and>
           (\<forall>i. ?len \<le> i \<and> i < length a \<longrightarrow> r ! i = a ! i)"
    if "\<forall>k<?len. b ! k \<noteq> 0"
  proof -
    have "MapRow_div_assign a b =
      Inr (map (\<lambda>j. if 0 \<le> j \<and> j < ?len then a ! j div b ! j else a ! j) [0..<length a])"
      unfolding MapRow_div_assign_def
      using MapRow_div_assign_loop_run [of 0 ?len ?len a b] that by simp
    then show ?thesis by auto
  qed
  have iff: "isl (MapRow_div_assign a b) \<longleftrightarrow> (\<exists>k<?len. b ! k = 0)"
  proof
    assume l: "isl (MapRow_div_assign a b)"
    show "\<exists>k<?len. b ! k = 0"
    proof (rule ccontr)
      assume "\<not> (\<exists>k<?len. b ! k = 0)"
      then have "\<forall>k<?len. b ! k \<noteq> 0" by blast
      from fine [OF this] l show False by auto
    qed
  next
    assume "\<exists>k<?len. b ! k = 0"
    then obtain k where k: "k < ?len \<and> b ! k = 0" by blast
    define m where "m = (LEAST k. k < ?len \<and> b ! k = 0)"
    have m: "m < ?len \<and> b ! m = 0" unfolding m_def by (rule LeastI [of _ k]) (rule k)
    have "\<forall>j<m. b ! j \<noteq> 0"
    proof (intro allI impI)
      fix j assume "j < m"
      then have "\<not> (j < ?len \<and> b ! j = 0)" unfolding m_def by (rule not_less_Least)
      with \<open>j < m\<close> m show "b ! j \<noteq> 0" by auto
    qed
    from raise [of m] m this show "isl (MapRow_div_assign a b)" by auto
  qed
  from iff raise fine show ?thesis by blast
qed

theorem MapRow_div_assign_partial_witness:
  "(1::nat) < min (length [4 :: 32 word, 9, 6]) (length [2 :: 32 word, 0, 3]) \<and>
   [2 :: 32 word, 0, 3] ! 1 = 0 \<and>
   isl (MapRow_div_assign [4 :: 32 word, 9, 6] [2, 0, 3]) \<and>
   MapRow_div_assign [4 :: 32 word, 9, 6] [2, 0, 3] =
     Inl (domain_error ''division by zero'', [2, 9, 6]) \<and>
   MapRow_div_assign [4 :: 32 word, 9, 6] [2, 3] = Inr [2, 3, 6]"
proof -
  let ?a = "[4 :: 32 word, 9, 6]" and ?b = "[2 :: 32 word, 0, 3]"
  have k: "(1::nat) < min (length ?a) (length ?b) \<and> ?b ! 1 = 0" by simp
  then have ex: "\<exists>k<min (length ?a) (length ?b). ?b ! k = 0" by (rule exI [of _ 1])
  have raised: "isl (MapRow_div_assign ?a ?b)"
    by (rule MapRow_div_assign_partial [of ?a ?b, THEN conjunct1, THEN iffD2, OF ex])
  have "MapRow_div_assign ?a ?b = Inl (domain_error ''division by zero'', [2, 9, 6])"
    by (simp add: MapRow_div_assign_def MapRow_div_assign_loop.simps)
  moreover have "MapRow_div_assign ?a [2, 3] = Inr [2, 3, 6]"
    by (simp add: MapRow_div_assign_def MapRow_div_assign_loop.simps)
  ultimately show ?thesis using k raised by (simp only:)
qed

subsection \<open>Map2D rows and the display banks\<close>

text \<open>The constructor establishes the class invariant.\<close>

lemma Map2D_new_wf: "Map2D_wf (Map2D_new rows cols :: 'a::zero Map2D)"
  by (auto simp add: Map2D_new_def Map2D_wf_def Let_def max_def)

lemma fold_update_range:
  "b + n \<le> length d \<Longrightarrow>
   fold (\<lambda>i d. d[i := f (d ! i)]) [b..<b + n] d =
     map (\<lambda>i. if b \<le> i \<and> i < b + n then f (d ! i) else d ! i) [0..<length d]"
proof (induction n)
  case 0
  then show ?case by (auto intro!: nth_equalityI)
next
  case (Suc n)
  have "[b..<b + Suc n] = [b..<b + n] @ [b + n]" by simp
  then have "fold (\<lambda>i d. d[i := f (d ! i)]) [b..<b + Suc n] d =
    (let d' = fold (\<lambda>i d. d[i := f (d ! i)]) [b..<b + n] d in d'[b + n := f (d' ! (b + n))])"
    by (simp del: upt_Suc add: Let_def)
  also have "\<dots> = map (\<lambda>i. if b \<le> i \<and> i < b + Suc n then f (d ! i) else d ! i) [0..<length d]"
    using Suc by (auto intro!: nth_equalityI simp: nth_list_update Let_def)
  finally show ?case .
qed

lemma Map2D_for_rows_map:
  assumes body: "\<And>b n d. b + n \<le> length d \<Longrightarrow>
       body b n d = map (\<lambda>i. if b \<le> i \<and> i < b + n then f (d ! i) else d ! i) [0..<length d]"
    and wf: "Map2D_wf m"
  shows "Map2D_for_rows body m = m\<lparr>pData := map f (pData m)\<rparr>"
proof -
  let ?c = "mCols m"
  have rows: "r \<le> mRows m \<Longrightarrow>
      fold (\<lambda>row d. body (row * ?c) ?c d) [0..<r] (pData m) =
        map (\<lambda>i. if i < r * ?c then f (pData m ! i) else pData m ! i) [0..<length (pData m)]" for r
  proof (induction r)
    case 0
    then show ?case by (auto intro!: nth_equalityI)
  next
    case (Suc r)
    let ?d' = "map (\<lambda>i. if i < r * ?c then f (pData m ! i) else pData m ! i) [0..<length (pData m)]"
    have fit: "r * ?c + ?c \<le> length ?d'"
    proof -
      have "Suc r * ?c \<le> mRows m * ?c" using Suc.prems by (intro mult_le_mono1)
      then show ?thesis using wf by (simp add: Map2D_wf_def)
    qed
    have "fold (\<lambda>row d. body (row * ?c) ?c d) [0..<Suc r] (pData m) = body (r * ?c) ?c ?d'"
      using Suc by simp
    also have "\<dots> = map (\<lambda>i. if r * ?c \<le> i \<and> i < r * ?c + ?c then f (?d' ! i) else ?d' ! i) [0..<length ?d']"
      by (rule body [OF fit])
    also have "\<dots> = map (\<lambda>i. if i < Suc r * ?c then f (pData m ! i) else pData m ! i) [0..<length (pData m)]"
      by (auto intro!: nth_equalityI)
    finally show ?case .
  qed
  have "fold (\<lambda>row d. body (row * ?c) ?c d) [0..<mRows m] (pData m) = map f (pData m)"
    using rows [of "mRows m"] wf by (auto intro!: nth_equalityI simp: Map2D_wf_def)
  then show ?thesis by (simp add: Map2D_for_rows_def)
qed

lemma std_fill_all: "std_fill 0 (length xs) v xs = map (\<lambda>e. v) xs"
  by (auto simp: std_fill_def intro!: nth_equalityI)

lemma Map2D_wipeAll_wf:
  "Map2D_wf m \<Longrightarrow> Map2D_wipeAll m = m\<lparr>pData := map (\<lambda>e. 0) (pData m)\<rparr>"
  by (simp add: Map2D_wipeAll_def Map2D_wf_def Map2D_size_def std_fill_all [symmetric])

lemma modifyViewport_plane_map:
  fixes plane :: "'p::len word Map2D"
  assumes "Map2D_wf plane"
  shows "modifyViewport_plane type plane =
     plane\<lparr>pData := map (case type of
                            CLR \<Rightarrow> (\<lambda>e. 0)
                          | XOR \<Rightarrow> (\<lambda>e. xor e 1)
                          | SUB \<Rightarrow> (\<lambda>e. and e (not 1))
                          | ADD \<Rightarrow> (\<lambda>e. or e 1)) (pData plane)\<rparr>"
proof (cases type)
  case CLR
  then show ?thesis using assms by (simp add: modifyViewport_plane_def Map2D_wipeAll_wf)
next
  case XOR
  have "Map2D_for_rows (\<lambda>mBegin mLength. RowProxy_xor_assign mBegin mLength 1) plane
      = plane\<lparr>pData := map (\<lambda>e. xor e 1) (pData plane)\<rparr>"
    by (rule Map2D_for_rows_map [OF _ assms]) (simp add: RowProxy_xor_assign_def fold_update_range [where f = "\<lambda>e. xor e 1"])
  then show ?thesis using XOR by (simp add: modifyViewport_plane_def)
next
  case SUB
  have "Map2D_for_rows (\<lambda>mBegin mLength. RowProxy_and_assign mBegin mLength (not 1)) plane
      = plane\<lparr>pData := map (\<lambda>e. and e (not 1)) (pData plane)\<rparr>"
    by (rule Map2D_for_rows_map [OF _ assms]) (simp add: RowProxy_and_assign_def not_one_eq fold_update_range [where f = "\<lambda>e. and e (- 2)"])
  then show ?thesis using SUB by (simp add: modifyViewport_plane_def)
next
  case ADD
  have "Map2D_for_rows (\<lambda>mBegin mLength. RowProxy_or_assign mBegin mLength 1) plane
      = plane\<lparr>pData := map (\<lambda>e. or e 1) (pData plane)\<rparr>"
    by (rule Map2D_for_rows_map [OF _ assms]) (simp add: RowProxy_or_assign_def fold_update_range [where f = "\<lambda>e. or e 1"])
  then show ?thesis using ADD by (simp add: modifyViewport_plane_def)
qed


lemma modifyViewport_plane_wf:
  "Map2D_wf plane \<Longrightarrow> Map2D_wf (modifyViewport_plane type plane)"
  by (simp add: modifyViewport_plane_map) (simp add: Map2D_wf_def)

lemma plane_selected_bit: "(and (sel::int) (push_bit P 1) = 0) = (\<not> bit sel P)"
  by (simp add: push_bit_of_1 and_exp_eq_0_iff_not_bit)

lemma modifyViewport_loop_run:
  fixes mb :: "('p::len word, 'c, 'k) MemoryBanks"
  shows "P \<le> 4 \<Longrightarrow> length (displayBuffer mb) = 4 \<Longrightarrow>
   (\<forall>Q<4. Map2D_wf (displayBuffer mb ! Q)) \<Longrightarrow>
   modifyViewport_loop vm type P mb =
     mb\<lparr>displayBuffer :=
          map (\<lambda>Q. if P \<le> Q \<and> bit (Plane_selected vm) Q
                    then modifyViewport_plane type (displayBuffer mb ! Q)
                    else displayBuffer mb ! Q) [0..<4]\<rparr>"
proof (induction vm type P mb rule: modifyViewport_loop.induct)
  case (1 vm type P mb)
  show ?case
  proof (cases "P < 4")
    case False
    with "1.prems" have P: "P = 4" by simp
    have "modifyViewport_loop vm type P mb = mb"
      using False by (subst modifyViewport_loop.simps) simp
    moreover have "map (\<lambda>Q. if P \<le> Q \<and> bit (Plane_selected vm) Q
                    then modifyViewport_plane type (displayBuffer mb ! Q)
                    else displayBuffer mb ! Q) [0..<4] = displayBuffer mb"
      using P "1.prems" by (auto intro!: nth_equalityI)
    ultimately show ?thesis by simp
  next
    case True
    let ?mb' = "if and (Plane_selected vm) (push_bit P 1) \<noteq> 0
              then mb\<lparr>displayBuffer :=
                        (displayBuffer mb)[P := modifyViewport_plane type (displayBuffer mb ! P)]\<rparr>
              else mb"
    have step: "modifyViewport_loop vm type P mb = modifyViewport_loop vm type (P + 1) ?mb'"
      using True by (subst modifyViewport_loop.simps) simp
    have len': "length (displayBuffer ?mb') = 4" using "1.prems" by simp
    have wf': "\<forall>Q<4. Map2D_wf (displayBuffer ?mb' ! Q)"
      using "1.prems" True by (auto simp: nth_list_update modifyViewport_plane_wf)
    have IH: "modifyViewport_loop vm type (P + 1) ?mb' =
      ?mb'\<lparr>displayBuffer :=
          map (\<lambda>Q. if P + 1 \<le> Q \<and> bit (Plane_selected vm) Q
                    then modifyViewport_plane type (displayBuffer ?mb' ! Q)
                    else displayBuffer ?mb' ! Q) [0..<4]\<rparr>"
      using True by (intro "1.IH" [OF True] len' wf') simp
    have eq: "map (\<lambda>Q. if P + 1 \<le> Q \<and> bit (Plane_selected vm) Q
                    then modifyViewport_plane type (displayBuffer ?mb' ! Q)
                    else displayBuffer ?mb' ! Q) [0..<4]
            = map (\<lambda>Q. if P \<le> Q \<and> bit (Plane_selected vm) Q
                    then modifyViewport_plane type (displayBuffer mb ! Q)
                    else displayBuffer mb ! Q) [0..<4]"
      using True "1.prems"
      by (intro nth_equalityI)
         (auto simp: nth_list_update plane_selected_bit simp del: upt_Suc push_bit_of_1)
    show ?thesis unfolding step IH eq by simp
  qed
qed

text \<open>
  Claim C5.  Over four well-formed planes: with multicolor mode off the operation
  zero-fills plane 0 and leaves planes 1 to 3 as they were, whatever the kind and
  the mask; with multicolor mode on, plane \<open>P\<close> is rewritten exactly when bit \<open>P\<close>
  of the mask is set, every element becoming 0 (Clear), \<open>e xor 1\<close> (Xor),
  \<open>e and (not 1)\<close> (Subtract) or \<open>e or 1\<close> (Add), and the unselected planes are
  unchanged.  The dimensions of every plane and the other members of the bank are
  untouched.
\<close>

theorem modifyViewport_planes:
  fixes mb :: "('p::len word, 'c, 'k) MemoryBanks"
  assumes "length (displayBuffer mb) = 4" and "\<forall>P<4. Map2D_wf (displayBuffer mb ! P)"
  shows
   "length (displayBuffer (modifyViewport vm type mb)) = 4 \<and>
    (\<forall>P<4. displayBuffer (modifyViewport vm type mb) ! P =
       (if \<not> xochip_color vm
        then (if P = 0
              then (displayBuffer mb ! 0)\<lparr>pData := map (\<lambda>e. 0) (pData (displayBuffer mb ! 0))\<rparr>
              else displayBuffer mb ! P)
        else if bit (Plane_selected vm) P
        then (displayBuffer mb ! P)\<lparr>pData :=
               map (case type of
                      CLR \<Rightarrow> (\<lambda>e. 0)
                    | XOR \<Rightarrow> (\<lambda>e. xor e 1)
                    | SUB \<Rightarrow> (\<lambda>e. and e (not 1))
                    | ADD \<Rightarrow> (\<lambda>e. or e 1)) (pData (displayBuffer mb ! P))\<rparr>
        else displayBuffer mb ! P)) \<and>
    foregroundBuffer (modifyViewport vm type mb) = foregroundBuffer mb \<and>
    backgroundBuffer (modifyViewport vm type mb) = backgroundBuffer mb \<and>
    collisionPalette (modifyViewport vm type mb) = collisionPalette mb \<and>
    megaPalette (modifyViewport vm type mb) = megaPalette mb"
proof (cases "xochip_color vm")
  case False
  have wf0: "Map2D_wf (displayBuffer mb ! 0)" using assms by simp
  show ?thesis using False assms
    by (simp add: modifyViewport_def Map2D_wipeAll_wf [OF wf0] nth_list_update)
next
  case True
  have run: "modifyViewport vm type mb =
     mb\<lparr>displayBuffer :=
          map (\<lambda>Q. if bit (Plane_selected vm) Q
                    then modifyViewport_plane type (displayBuffer mb ! Q)
                    else displayBuffer mb ! Q) [0..<4]\<rparr>"
    using True modifyViewport_loop_run [of 0 mb vm type] assms by (simp add: modifyViewport_def)
  have planes: "displayBuffer (modifyViewport vm type mb) ! P =
      (if bit (Plane_selected vm) P
        then (displayBuffer mb ! P)\<lparr>pData :=
               map (case type of
                      CLR \<Rightarrow> (\<lambda>e. 0)
                    | XOR \<Rightarrow> (\<lambda>e. xor e 1)
                    | SUB \<Rightarrow> (\<lambda>e. and e (not 1))
                    | ADD \<Rightarrow> (\<lambda>e. or e 1)) (pData (displayBuffer mb ! P))\<rparr>
        else displayBuffer mb ! P)" if "P < 4" for P
  proof -
    have "Map2D_wf (displayBuffer mb ! P)" using assms that by simp
    then show ?thesis using that unfolding run
      by (simp add: modifyViewport_plane_map del: upt_Suc)
  qed
  show ?thesis using True planes by (simp add: run del: upt_Suc)
qed

theorem modifyViewport_planes_witness:
  "pData (displayBuffer (modifyViewport
      \<lparr>xochip_color = True, Plane_selected = 5, mrw = (\<lambda>a. 0), flushDisplay_count = 0\<rparr> XOR
      \<lparr>displayBuffer = replicate 4 \<lparr>mRows = 1, mCols = 2, pData = [0, 3 :: 8 word]\<rparr>,
       foregroundBuffer = \<lparr>mRows = 1, mCols = 1, pData = [0 :: 32 word]\<rparr>,
       backgroundBuffer = \<lparr>mRows = 1, mCols = 1, pData = [0 :: 32 word]\<rparr>,
       collisionPalette = \<lparr>mRows = 1, mCols = 1, pData = [0 :: 8 word]\<rparr>,
       megaPalette = []\<rparr>) ! 2) = [1, 2] \<and>
   pData (displayBuffer (modifyViewport
      \<lparr>xochip_color = True, Plane_selected = 5, mrw = (\<lambda>a. 0), flushDisplay_count = 0\<rparr> XOR
      \<lparr>displayBuffer = replicate 4 \<lparr>mRows = 1, mCols = 2, pData = [0, 3 :: 8 word]\<rparr>,
       foregroundBuffer = \<lparr>mRows = 1, mCols = 1, pData = [0 :: 32 word]\<rparr>,
       backgroundBuffer = \<lparr>mRows = 1, mCols = 1, pData = [0 :: 32 word]\<rparr>,
       collisionPalette = \<lparr>mRows = 1, mCols = 1, pData = [0 :: 8 word]\<rparr>,
       megaPalette = []\<rparr>) ! 1) = [0, 3]"
proof -
  let ?vm = "\<lparr>xochip_color = True, Plane_selected = 5, mrw = (\<lambda>a. 0), flushDisplay_count = 0\<rparr>"
  let ?mb = "\<lparr>displayBuffer = replicate 4 \<lparr>mRows = 1, mCols = 2, pData = [0, 3 :: 8 word]\<rparr>,
       foregroundBuffer = \<lparr>mRows = 1, mCols = 1, pData = [0 :: 32 word]\<rparr>,
       backgroundBuffer = \<lparr>mRows = 1, mCols = 1, pData = [0 :: 32 word]\<rparr>,
       collisionPalette = \<lparr>mRows = 1, mCols = 1, pData = [0 :: 8 word]\<rparr>,
       megaPalette = []\<rparr>"
  have h1: "length (displayBuffer ?mb) = 4" by simp
  have h2: "\<forall>P<4. Map2D_wf (displayBuffer ?mb ! P)" by (simp add: Map2D_wf_def)
  have planes: "\<forall>P<4. displayBuffer (modifyViewport ?vm XOR ?mb) ! P =
       (if \<not> xochip_color ?vm
        then (if P = 0
              then (displayBuffer ?mb ! 0)\<lparr>pData := map (\<lambda>e. 0) (pData (displayBuffer ?mb ! 0))\<rparr>
              else displayBuffer ?mb ! P)
        else if bit (Plane_selected ?vm) P
        then (displayBuffer ?mb ! P)\<lparr>pData :=
               map (case XOR of
                      CLR \<Rightarrow> (\<lambda>e. 0)
                    | XOR \<Rightarrow> (\<lambda>e. xor e 1)
                    | SUB \<Rightarrow> (\<lambda>e. and e (not 1))
                    | ADD \<Rightarrow> (\<lambda>e. or e 1)) (pData (displayBuffer ?mb ! P))\<rparr>
        else displayBuffer ?mb ! P)"
    using modifyViewport_planes [OF h1 h2, of ?vm XOR] by blast
  have p2: "displayBuffer (modifyViewport ?vm XOR ?mb) ! 2 = \<lparr>mRows = 1, mCols = 2, pData = [1, 2 :: 8 word]\<rparr>"
    using planes [rule_format, of 2] by (simp add: bit_numeral_Bit1_Suc_iff numeral_2_eq_2)
  have p1: "displayBuffer (modifyViewport ?vm XOR ?mb) ! 1 = \<lparr>mRows = 1, mCols = 2, pData = [0, 3 :: 8 word]\<rparr>"
    using planes [rule_format, of 1] by (simp add: bit_numeral_Bit1_Suc_iff)
  show ?thesis unfolding p1 p2 by simp
qed

subsection \<open>Flushing the composite buffers\<close>

lemma std_copy_n_nth:
  "i < length dst \<Longrightarrow> std_copy_n src n dst ! i = (if i < n then src ! i else dst ! i)"
  by (simp add: std_copy_n_def)

text \<open>
  Claim C2, as amended.  Every flush zero-fills the background buffer and the
  collision buffer and leaves the display planes alone.  The first flush of a
  session zero-fills the whole palette and leaves the foreground buffer as it was;
  every other flush leaves the palette as it was and copies the background buffer
  onto the foreground buffer over their common linear extent.
\<close>

theorem flushBuffers_effect:
  fixes mb :: "('p, 'c::zero, 'k::zero) MemoryBanks"
  assumes "Map2D_wf (backgroundBuffer mb)" and "Map2D_wf (collisionPalette mb)"
  shows
   "backgroundBuffer (snd (flushBuffers firstFlush (vm, mb))) =
      (backgroundBuffer mb)\<lparr>pData := map (\<lambda>e. 0) (pData (backgroundBuffer mb))\<rparr> \<and>
    collisionPalette (snd (flushBuffers firstFlush (vm, mb))) =
      (collisionPalette mb)\<lparr>pData := map (\<lambda>e. 0) (pData (collisionPalette mb))\<rparr> \<and>
    displayBuffer (snd (flushBuffers firstFlush (vm, mb))) = displayBuffer mb \<and>
    (firstFlush \<longrightarrow>
       megaPalette (snd (flushBuffers firstFlush (vm, mb))) = map (\<lambda>e. 0) (megaPalette mb) \<and>
       foregroundBuffer (snd (flushBuffers firstFlush (vm, mb))) = foregroundBuffer mb) \<and>
    (\<not> firstFlush \<longrightarrow>
       megaPalette (snd (flushBuffers firstFlush (vm, mb))) = megaPalette mb \<and>
       mRows (foregroundBuffer (snd (flushBuffers firstFlush (vm, mb)))) = mRows (foregroundBuffer mb) \<and>
       mCols (foregroundBuffer (snd (flushBuffers firstFlush (vm, mb)))) = mCols (foregroundBuffer mb) \<and>
       length (pData (foregroundBuffer (snd (flushBuffers firstFlush (vm, mb))))) =
         length (pData (foregroundBuffer mb)) \<and>
       (\<forall>i<length (pData (foregroundBuffer mb)).
          pData (foregroundBuffer (snd (flushBuffers firstFlush (vm, mb)))) ! i =
            (if i < min (Map2D_size (foregroundBuffer mb)) (Map2D_size (backgroundBuffer mb))
             then pData (backgroundBuffer mb) ! i
             else pData (foregroundBuffer mb) ! i)))"
  using assms
  by (simp add: flushBuffers_def Let_def Map2D_wipeAll_wf Map2D_copyLinear_def std_copy_n_def)

text \<open>
  Claim C2 as stated fails on the first flush: with the foreground holding \<open>[1]\<close>
  and the background \<open>[2]\<close>, the foreground still holds \<open>[1]\<close> afterwards, where
  the linear copy would have stored \<open>[2]\<close>.
\<close>

theorem flushBuffers_first_flush_no_copy:
  "pData (foregroundBuffer (snd (flushBuffers True
      (\<lparr>xochip_color = False, Plane_selected = 0, mrw = (\<lambda>a. 0), flushDisplay_count = 0\<rparr>,
       \<lparr>displayBuffer = ([] :: 8 word Map2D list),
        foregroundBuffer = \<lparr>mRows = 1, mCols = 1, pData = [1 :: 32 word]\<rparr>,
        backgroundBuffer = \<lparr>mRows = 1, mCols = 1, pData = [2 :: 32 word]\<rparr>,
        collisionPalette = \<lparr>mRows = 1, mCols = 1, pData = [0 :: 8 word]\<rparr>,
        megaPalette = [7]\<rparr>)))) = [1] \<and>
   pData (Map2D_copyLinear \<lparr>mRows = 1, mCols = 1, pData = [1 :: 32 word]\<rparr>
                           \<lparr>mRows = 1, mCols = 1, pData = [2 :: 32 word]\<rparr>) = [2]"
  by (simp add: flushBuffers_def Let_def Map2D_copyLinear_def std_copy_n_def Map2D_size_def)

theorem flushBuffers_effect_witness:
  "pData (foregroundBuffer (snd (flushBuffers False
      (\<lparr>xochip_color = False, Plane_selected = 0, mrw = (\<lambda>a. 0), flushDisplay_count = 0\<rparr>,
       \<lparr>displayBuffer = ([] :: 8 word Map2D list),
        foregroundBuffer = \<lparr>mRows = 1, mCols = 2, pData = [1, 5 :: 32 word]\<rparr>,
        backgroundBuffer = \<lparr>mRows = 1, mCols = 1, pData = [2 :: 32 word]\<rparr>,
        collisionPalette = \<lparr>mRows = 1, mCols = 1, pData = [9 :: 8 word]\<rparr>,
        megaPalette = [7]\<rparr>)))) ! 0 = 2 \<and>
   pData (backgroundBuffer (snd (flushBuffers False
      (\<lparr>xochip_color = False, Plane_selected = 0, mrw = (\<lambda>a. 0), flushDisplay_count = 0\<rparr>,
       \<lparr>displayBuffer = ([] :: 8 word Map2D list),
        foregroundBuffer = \<lparr>mRows = 1, mCols = 2, pData = [1, 5 :: 32 word]\<rparr>,
        backgroundBuffer = \<lparr>mRows = 1, mCols = 1, pData = [2 :: 32 word]\<rparr>,
        collisionPalette = \<lparr>mRows = 1, mCols = 1, pData = [9 :: 8 word]\<rparr>,
        megaPalette = [7]\<rparr>)))) = [0]"
proof -
  let ?vm = "\<lparr>xochip_color = False, Plane_selected = 0, mrw = (\<lambda>a. 0), flushDisplay_count = 0\<rparr>"
  let ?mb = "\<lparr>displayBuffer = ([] :: 8 word Map2D list),
        foregroundBuffer = \<lparr>mRows = 1, mCols = 2, pData = [1, 5 :: 32 word]\<rparr>,
        backgroundBuffer = \<lparr>mRows = 1, mCols = 1, pData = [2 :: 32 word]\<rparr>,
        collisionPalette = \<lparr>mRows = 1, mCols = 1, pData = [9 :: 8 word]\<rparr>,
        megaPalette = [7]\<rparr>"
  have h1: "Map2D_wf (backgroundBuffer ?mb)" by (simp add: Map2D_wf_def)
  have h2: "Map2D_wf (collisionPalette ?mb)" by (simp add: Map2D_wf_def)
  show ?thesis
    using flushBuffers_effect [OF h1 h2, of False ?vm]
    by (simp add: Map2D_size_def)
qed


subsection \<open>Loading the palette\<close>

lemma loadPalette_loop_run:
  "idx \<le> unat count \<Longrightarrow> unat count < length pal \<Longrightarrow>
   loadPalette_loop vm idx index count pal =
     Some (map (\<lambda>j. if idx < j \<and> j \<le> unat count
                     then loadPalette_entry (mrw vm) (index + 4 * (of_nat j - of_nat (idx + 1)))
                     else pal ! j) [0..<length pal])"
proof (induction vm idx index count pal rule: loadPalette_loop.induct)
  case (1 vm idx index count pal)
  show ?case
  proof (cases "idx < unat count")
    case False
    have "loadPalette_loop vm idx index count pal = Some pal"
      using False by (subst loadPalette_loop.simps) simp
    moreover have "map (\<lambda>j. if idx < j \<and> j \<le> unat count
                     then loadPalette_entry (mrw vm) (index + 4 * (of_nat j - of_nat (idx + 1)))
                     else pal ! j) [0..<length pal] = pal"
      using False by (auto intro!: nth_equalityI)
    ultimately show ?thesis by simp
  next
    case True
    then have fit: "idx + 1 < length pal" using "1.prems" by simp
    let ?pal' = "pal[idx + 1 := loadPalette_entry (mrw vm) index]"
    have step: "loadPalette_loop vm idx index count pal =
        loadPalette_loop vm (idx + 1) (index + 4) count ?pal'"
      using True fit by (subst loadPalette_loop.simps) simp
    have IH: "loadPalette_loop vm (idx + 1) (index + 4) count ?pal' =
       Some (map (\<lambda>j. if idx + 1 < j \<and> j \<le> unat count
                     then loadPalette_entry (mrw vm) (index + 4 + 4 * (of_nat j - of_nat (idx + 1 + 1)))
                     else ?pal' ! j) [0..<length ?pal'])"
      using "1.IH" [OF True fit] True "1.prems" by simp
    have addr: "index + 4 + 4 * (of_nat j - of_nat (idx + 1 + 1)) =
        index + 4 * (of_nat j - of_nat (idx + 1))" for j
      by (simp add: algebra_simps)
    have eq: "map (\<lambda>j. if idx + 1 < j \<and> j \<le> unat count
                     then loadPalette_entry (mrw vm) (index + 4 + 4 * (of_nat j - of_nat (idx + 1 + 1)))
                     else ?pal' ! j) [0..<length ?pal']
       = map (\<lambda>j. if idx < j \<and> j \<le> unat count
                     then loadPalette_entry (mrw vm) (index + 4 * (of_nat j - of_nat (idx + 1)))
                     else pal ! j) [0..<length pal]"
    proof (intro nth_equalityI)
      show "length (map (\<lambda>j. if idx + 1 < j \<and> j \<le> unat count
                     then loadPalette_entry (mrw vm) (index + 4 + 4 * (of_nat j - of_nat (idx + 1 + 1)))
                     else ?pal' ! j) [0..<length ?pal'])
       = length (map (\<lambda>j. if idx < j \<and> j \<le> unat count
                     then loadPalette_entry (mrw vm) (index + 4 * (of_nat j - of_nat (idx + 1)))
                     else pal ! j) [0..<length pal])" by simp
    next
      fix j
      assume "j < length (map (\<lambda>j. if idx + 1 < j \<and> j \<le> unat count
                     then loadPalette_entry (mrw vm) (index + 4 + 4 * (of_nat j - of_nat (idx + 1 + 1)))
                     else ?pal' ! j) [0..<length ?pal'])"
      then have j: "j < length pal" by simp
      consider "j \<le> idx" | "j = idx + 1" | "idx + 1 < j" by linarith
      then show "map (\<lambda>j. if idx + 1 < j \<and> j \<le> unat count
                     then loadPalette_entry (mrw vm) (index + 4 + 4 * (of_nat j - of_nat (idx + 1 + 1)))
                     else ?pal' ! j) [0..<length ?pal'] ! j
       = map (\<lambda>j. if idx < j \<and> j \<le> unat count
                     then loadPalette_entry (mrw vm) (index + 4 * (of_nat j - of_nat (idx + 1)))
                     else pal ! j) [0..<length pal] ! j"
      proof cases
        case 1
        then show ?thesis using j by simp
      next
        case 2
        then show ?thesis using j True by simp
      next
        case 3
        then show ?thesis using j by (simp add: algebra_simps)
      qed
    qed
    show ?thesis unfolding step IH eq ..
  qed
qed

lemma loadPalette_loop_overrun:
  "idx < unat count \<Longrightarrow> length pal \<le> unat count \<Longrightarrow>
   loadPalette_loop vm idx index count pal = None"
proof (induction vm idx index count pal rule: loadPalette_loop.induct)
  case (1 vm idx index count pal)
  show ?case
  proof (cases "idx + 1 < length pal")
    case False
    then show ?thesis using "1.prems" by (subst loadPalette_loop.simps) simp
  next
    case True
    have "loadPalette_loop vm idx index count pal =
        loadPalette_loop vm (idx + 1) (index + 4) count (pal[idx + 1 := loadPalette_entry (mrw vm) index])"
      using True "1.prems" by (subst loadPalette_loop.simps) simp
    also have "\<dots> = None"
      using "1.IH" [OF "1.prems"(1) True] True "1.prems" by simp
    finally show ?thesis .
  qed
qed

text \<open>
  Claim C8, as amended.  For a count below the capacity of the table,
  \<^verbatim>\<open>loadPalette\<close> returns with slot \<open>i + 1\<close> holding the big-endian word of the four
  bytes at \<open>index + 4 * i\<close> (in 32-bit address arithmetic) for every \<open>i\<close> below the
  count, and with slot 0 and every slot above the count as before; the other
  members of the bank are untouched.  A nonzero count that reaches the capacity
  writes past the table.
\<close>

theorem loadPalette_slots:
  fixes mb :: "('p, 'c, 'k) MemoryBanks"
  shows
  "(unat count < length (megaPalette mb) \<longrightarrow>
     (\<exists>pal. loadPalette vm index count mb = Some (mb\<lparr>megaPalette := pal\<rparr>) \<and>
        length pal = length (megaPalette mb) \<and>
        pal ! 0 = megaPalette mb ! 0 \<and>
        (\<forall>i<unat count. pal ! (i + 1) =
           or (push_bit 24 (ucast (mrw vm (index + 4 * of_nat i + 0))))
              (or (push_bit 16 (ucast (mrw vm (index + 4 * of_nat i + 1))))
                  (or (push_bit 8 (ucast (mrw vm (index + 4 * of_nat i + 2))))
                      (ucast (mrw vm (index + 4 * of_nat i + 3)))))) \<and>
        (\<forall>j. unat count < j \<and> j < length (megaPalette mb) \<longrightarrow> pal ! j = megaPalette mb ! j))) \<and>
   (0 < unat count \<and> length (megaPalette mb) \<le> unat count \<longrightarrow>
      loadPalette vm index count mb = None)"
proof (intro conjI impI)
  assume fit: "unat count < length (megaPalette mb)"
  let ?pal = "map (\<lambda>j. if 0 < j \<and> j \<le> unat count
                     then loadPalette_entry (mrw vm) (index + 4 * (of_nat j - of_nat (0 + 1)))
                     else megaPalette mb ! j) [0..<length (megaPalette mb)]"
  have "loadPalette_loop vm 0 index count (megaPalette mb) = Some ?pal"
    using fit by (intro loadPalette_loop_run) simp_all
  then have "loadPalette vm index count mb = Some (mb\<lparr>megaPalette := ?pal\<rparr>)"
    by (simp add: loadPalette_def)
  moreover have "length ?pal = length (megaPalette mb)" by simp
  moreover have "?pal ! 0 = megaPalette mb ! 0"
  proof -
    have "0 < length (megaPalette mb)" using fit by linarith
    then show ?thesis by simp
  qed
  moreover have "\<forall>i<unat count. ?pal ! (i + 1) =
           or (push_bit 24 (ucast (mrw vm (index + 4 * of_nat i + 0))))
              (or (push_bit 16 (ucast (mrw vm (index + 4 * of_nat i + 1))))
                  (or (push_bit 8 (ucast (mrw vm (index + 4 * of_nat i + 2))))
                      (ucast (mrw vm (index + 4 * of_nat i + 3)))))"
    using fit by (simp add: loadPalette_entry_def)
  moreover have "\<forall>j. unat count < j \<and> j < length (megaPalette mb) \<longrightarrow> ?pal ! j = megaPalette mb ! j"
    by simp
  ultimately show "\<exists>pal. loadPalette vm index count mb = Some (mb\<lparr>megaPalette := pal\<rparr>) \<and>
        length pal = length (megaPalette mb) \<and>
        pal ! 0 = megaPalette mb ! 0 \<and>
        (\<forall>i<unat count. pal ! (i + 1) =
           or (push_bit 24 (ucast (mrw vm (index + 4 * of_nat i + 0))))
              (or (push_bit 16 (ucast (mrw vm (index + 4 * of_nat i + 1))))
                  (or (push_bit 8 (ucast (mrw vm (index + 4 * of_nat i + 2))))
                      (ucast (mrw vm (index + 4 * of_nat i + 3)))))) \<and>
        (\<forall>j. unat count < j \<and> j < length (megaPalette mb) \<longrightarrow> pal ! j = megaPalette mb ! j)"
    by blast
next
  assume "0 < unat count \<and> length (megaPalette mb) \<le> unat count"
  then have "loadPalette_loop vm 0 index count (megaPalette mb) = None"
    by (intro loadPalette_loop_overrun) simp_all
  then show "loadPalette vm index count mb = None" by (simp add: loadPalette_def)
qed

theorem loadPalette_slots_witness:
  "unat (2 :: 32 word) < length [9, 9, 9, 9 :: 32 word] \<and>
   loadPalette \<lparr>xochip_color = False, Plane_selected = 0, mrw = ucast, flushDisplay_count = 0\<rparr> 16 2
      \<lparr>displayBuffer = ([] :: 8 word Map2D list),
       foregroundBuffer = \<lparr>mRows = 1, mCols = 1, pData = [0 :: 32 word]\<rparr>,
       backgroundBuffer = \<lparr>mRows = 1, mCols = 1, pData = [0 :: 32 word]\<rparr>,
       collisionPalette = \<lparr>mRows = 1, mCols = 1, pData = [0 :: 8 word]\<rparr>,
       megaPalette = [9, 9, 9, 9]\<rparr> =
   Some \<lparr>displayBuffer = ([] :: 8 word Map2D list),
       foregroundBuffer = \<lparr>mRows = 1, mCols = 1, pData = [0 :: 32 word]\<rparr>,
       backgroundBuffer = \<lparr>mRows = 1, mCols = 1, pData = [0 :: 32 word]\<rparr>,
       collisionPalette = \<lparr>mRows = 1, mCols = 1, pData = [0 :: 8 word]\<rparr>,
       megaPalette = [9, 0x10111213, 0x14151617, 9]\<rparr>"
proof -
  let ?vm = "\<lparr>xochip_color = False, Plane_selected = 0, mrw = ucast, flushDisplay_count = 0\<rparr>"
  let ?mb = "\<lparr>displayBuffer = ([] :: 8 word Map2D list),
       foregroundBuffer = \<lparr>mRows = 1, mCols = 1, pData = [0 :: 32 word]\<rparr>,
       backgroundBuffer = \<lparr>mRows = 1, mCols = 1, pData = [0 :: 32 word]\<rparr>,
       collisionPalette = \<lparr>mRows = 1, mCols = 1, pData = [0 :: 8 word]\<rparr>,
       megaPalette = [9, 9, 9, 9 :: 32 word]\<rparr>"
  have fit: "unat (2 :: 32 word) < length (megaPalette ?mb)" by simp
  then obtain pal where pal: "loadPalette ?vm 16 2 ?mb = Some (?mb\<lparr>megaPalette := pal\<rparr>)"
      "length pal = length (megaPalette ?mb)" "pal ! 0 = megaPalette ?mb ! 0"
    using loadPalette_slots [of 2 ?mb ?vm 16] by blast
  have "loadPalette ?vm 16 2 ?mb = Some (?mb\<lparr>megaPalette := [9, 0x10111213, 0x14151617, 9]\<rparr>)"
    by (simp add: loadPalette_def loadPalette_loop.simps loadPalette_entry_def)
  then show ?thesis using fit pal by simp
qed

text \<open>
  Claim C8 as stated, for every count, fails where the count reaches the capacity
  of the table: on a table of four slots a load of four entries writes slots 1, 2
  and 3 and then indexes slot 4, past the end of the table, and a load of three
  entries fits.
\<close>

theorem loadPalette_count_overrun:
  "loadPalette \<lparr>xochip_color = False, Plane_selected = 0, mrw = ucast, flushDisplay_count = 0\<rparr> 16 4
      \<lparr>displayBuffer = ([] :: 8 word Map2D list),
       foregroundBuffer = \<lparr>mRows = 1, mCols = 1, pData = [0 :: 32 word]\<rparr>,
       backgroundBuffer = \<lparr>mRows = 1, mCols = 1, pData = [0 :: 32 word]\<rparr>,
       collisionPalette = \<lparr>mRows = 1, mCols = 1, pData = [0 :: 8 word]\<rparr>,
       megaPalette = [9, 9, 9, 9]\<rparr> = None \<and>
   loadPalette \<lparr>xochip_color = False, Plane_selected = 0, mrw = ucast, flushDisplay_count = 0\<rparr> 16 3
      \<lparr>displayBuffer = ([] :: 8 word Map2D list),
       foregroundBuffer = \<lparr>mRows = 1, mCols = 1, pData = [0 :: 32 word]\<rparr>,
       backgroundBuffer = \<lparr>mRows = 1, mCols = 1, pData = [0 :: 32 word]\<rparr>,
       collisionPalette = \<lparr>mRows = 1, mCols = 1, pData = [0 :: 8 word]\<rparr>,
       megaPalette = [9, 9, 9, 9]\<rparr> =
   Some \<lparr>displayBuffer = ([] :: 8 word Map2D list),
       foregroundBuffer = \<lparr>mRows = 1, mCols = 1, pData = [0 :: 32 word]\<rparr>,
       backgroundBuffer = \<lparr>mRows = 1, mCols = 1, pData = [0 :: 32 word]\<rparr>,
       collisionPalette = \<lparr>mRows = 1, mCols = 1, pData = [0 :: 8 word]\<rparr>,
       megaPalette = [9, 0x10111213, 0x14151617, 0x18191A1B]\<rparr>"
  by (simp add: loadPalette_def loadPalette_loop.simps loadPalette_entry_def)

subsection \<open>Map2D: transpose\<close>

lemma transpose_next_less:
  assumes "b < R * C"
  shows "transpose_next R C b < R * C"
proof -
  have R: "0 < R" using assms by (cases R) simp_all
  have q: "b div R < C" using assms by (simp add: less_mult_imp_div_less mult.commute)
  have r: "b mod R < R" using R by simp
  have "(b mod R) * C + b div R < (b mod R) * C + C" using q by simp
  also have "\<dots> = (b mod R + 1) * C" by simp
  also have "\<dots> \<le> R * C" using r by (intro mult_le_mono1) simp
  finally show ?thesis by (simp add: transpose_next_def)
qed

lemma transpose_next_inverse:
  assumes "b < R * C"
  shows "transpose_next C R (transpose_next R C b) = b"
proof -
  have q: "b div R < C" using assms by (simp add: less_mult_imp_div_less mult.commute)
  have "transpose_next C R ((b mod R) * C + b div R) = (b div R) * R + b mod R"
    using q by (simp add: transpose_next_def)
  then show ?thesis by (simp add: transpose_next_def)
qed

lemma transpose_funpow_less:
  "b < R * C \<Longrightarrow> (transpose_next R C ^^ k) b < R * C"
  by (induction k) (simp_all add: transpose_next_less)

lemma transpose_funpow_inverse:
  "b < R * C \<Longrightarrow> (transpose_next C R ^^ k) ((transpose_next R C ^^ k) b) = b"
proof (induction k)
  case 0
  then show ?case by simp
next
  case (Suc k)
  have "(transpose_next C R ^^ Suc k) ((transpose_next R C ^^ Suc k) b) =
        (transpose_next C R ^^ k) (transpose_next C R (transpose_next R C ((transpose_next R C ^^ k) b)))"
    by (simp add: funpow_swap1)
  also have "\<dots> = (transpose_next C R ^^ k) ((transpose_next R C ^^ k) b)"
    using Suc.prems by (simp add: transpose_next_inverse transpose_funpow_less)
  finally show ?case using Suc by simp
qed

lemma transpose_funpow_cancel:
  assumes "x < R * C" and "y < R * C"
    and "(transpose_next R C ^^ (k + i)) x = (transpose_next R C ^^ k) y"
  shows "(transpose_next R C ^^ i) x = y"
proof -
  have "(transpose_next R C ^^ (k + i)) x = (transpose_next R C ^^ k) ((transpose_next R C ^^ i) x)"
    by (simp add: funpow_add)
  then have "(transpose_next C R ^^ k) ((transpose_next R C ^^ k) ((transpose_next R C ^^ i) x)) =
             (transpose_next C R ^^ k) ((transpose_next R C ^^ k) y)"
    using assms(3) by simp
  then show ?thesis
    using assms(1,2) by (simp add: transpose_funpow_inverse transpose_funpow_less)
qed

lemma transpose_periodic:
  assumes "a < R * C"
  shows "\<exists>k>0. (transpose_next R C ^^ k) a = a"
proof -
  let ?f = "\<lambda>i. (transpose_next R C ^^ i) a"
  have "?f ` {0..R * C} \<subseteq> {..<R * C}"
    using assms by (auto simp: transpose_funpow_less)
  then have "card (?f ` {0..R * C}) \<le> card {..<R * C}"
    by (intro card_mono) simp_all
  then have "card (?f ` {0..R * C}) < card {0..R * C}" by simp
  then have "\<not> inj_on ?f {0..R * C}" by (rule pigeonhole)
  then obtain i j where ij: "i \<noteq> j" "?f i = ?f j" by (auto simp: inj_on_def)
  have sym: "\<exists>k>0. ?f k = a" if "i < j" "?f i = ?f j" for i j
  proof -
    have "(transpose_next R C ^^ (i + (j - i))) a = (transpose_next R C ^^ i) a"
      using that by simp
    then have "(transpose_next R C ^^ (j - i)) a = a"
      by (rule transpose_funpow_cancel [OF assms assms])
    then show ?thesis using that by (intro exI [of _ "j - i"]) simp
  qed
  show ?thesis
  proof (cases "i < j")
    case True
    then show ?thesis using sym ij by blast
  next
    case False
    then have "j < i" using ij by simp
    then show ?thesis using sym [of j i] ij by simp
  qed
qed

lemma transpose_hits_unique:
  assumes "transpose_hits R C a p m" and "transpose_hits R C a p m'"
  shows "m = m'"
proof (rule ccontr)
  assume "m \<noteq> m'"
  then consider "m < m'" | "m' < m" by linarith
  then show False
  proof cases
    case 1
    then have "(transpose_next R C ^^ Suc m) p < a" using assms(2) by (simp add: transpose_hits_def)
    then show False using assms(1) by (simp add: transpose_hits_def)
  next
    case 2
    then have "(transpose_next R C ^^ Suc m') p < a" using assms(1) by (simp add: transpose_hits_def)
    then show False using assms(2) by (simp add: transpose_hits_def)
  qed
qed

lemma transpose_follow_hits:
  "transpose_hits R C a p m \<Longrightarrow>
   transpose_follow R C a p = Some ((transpose_next R C ^^ Suc m) p)"
proof (induction m arbitrary: p)
  case 0
  then have "\<not> transpose_next R C p < a" by (simp add: transpose_hits_def)
  then show ?case by (subst transpose_follow.simps) simp
next
  case (Suc m)
  have lt: "transpose_next R C p < a"
    using Suc.prems by (auto simp: transpose_hits_def dest: spec [of _ 0])
  have "transpose_hits R C a (transpose_next R C p) m"
    unfolding transpose_hits_def
  proof (intro conjI allI impI)
    show "a \<le> (transpose_next R C ^^ Suc m) (transpose_next R C p)"
      using Suc.prems by (simp add: transpose_hits_def funpow_swap1)
  next
    fix j assume "j < m"
    then have "(transpose_next R C ^^ Suc (Suc j)) p < a"
      using Suc.prems by (auto simp: transpose_hits_def simp del: funpow.simps)
    then show "(transpose_next R C ^^ Suc j) (transpose_next R C p) < a"
      by (simp add: funpow_swap1)
  qed
  then have "transpose_follow R C a (transpose_next R C p) =
      Some ((transpose_next R C ^^ Suc m) (transpose_next R C p))"
    by (rule Suc.IH)
  then show ?case using lt
    by (subst transpose_follow.simps) (simp add: funpow_swap1)
qed

lemma transpose_hits_exists:
  assumes "p < R * C" and "a \<le> p"
  shows "\<exists>m. transpose_hits R C a p m"
proof -
  obtain k where k: "0 < k" "(transpose_next R C ^^ k) p = p"
    using transpose_periodic [OF assms(1)] by blast
  then obtain k' where k': "k = Suc k'" by (cases k) simp_all
  let ?P = "\<lambda>m. a \<le> (transpose_next R C ^^ Suc m) p"
  have "?P k'" using k k' assms(2) by simp
  then have least: "?P (LEAST m. ?P m)" by (rule LeastI)
  have "\<forall>j<(LEAST m. ?P m). \<not> ?P j" using not_less_Least by blast
  with least have "transpose_hits R C a p (LEAST m. ?P m)"
    unfolding transpose_hits_def by (simp add: not_le)
  then show ?thesis ..
qed

lemma ex_last_below:
  "\<exists>j<m::nat. Q j \<Longrightarrow> \<exists>j<m. Q j \<and> (\<forall>i. j < i \<and> i < m \<longrightarrow> \<not> Q i)"
proof (induction m)
  case 0
  then show ?case by simp
next
  case (Suc m)
  show ?case
  proof (cases "Q m")
    case True
    then show ?thesis by (intro exI [of _ m]) auto
  next
    case False
    with Suc.prems have "\<exists>j<m. Q j" by (metis less_Suc_eq)
    then obtain j where "j < m" "Q j" "\<forall>i. j < i \<and> i < m \<longrightarrow> \<not> Q i"
      using Suc.IH by blast
    then show ?thesis using False by (intro exI [of _ j]) (auto simp: less_Suc_eq)
  qed
qed

lemma ex_first_below:
  "\<exists>j<m::nat. Q j \<Longrightarrow> \<exists>j<m. Q j \<and> (\<forall>i<j. \<not> Q i)"
proof -
  assume "\<exists>j<m. Q j"
  then obtain j where j: "j < m \<and> Q j" by blast
  let ?l = "LEAST j. j < m \<and> Q j"
  have "?l < m \<and> Q ?l" using j by (rule LeastI [of "\<lambda>j. j < m \<and> Q j" j])
  moreover have "\<forall>i<?l. \<not> Q i"
  proof (intro allI impI)
    fix i assume i: "i < ?l"
    then have "\<not> (i < m \<and> Q i)" by (rule not_less_Least [of i "\<lambda>j. j < m \<and> Q j"])
    moreover have "i < m" using i \<open>?l < m \<and> Q ?l\<close> by simp
    ultimately show "\<not> Q i" by simp
  qed
  ultimately show ?thesis by blast
qed

lemma transpose_inv_step:
  assumes inv: "transpose_inv R C orig a cur"
    and a: "a < R * C"
    and hb: "transpose_hits R C a a m0"
  shows "transpose_inv R C orig (a + 1)
           (if (transpose_next R C ^^ Suc m0) a \<noteq> a
            then cur[a := cur ! ((transpose_next R C ^^ Suc m0) a),
                     (transpose_next R C ^^ Suc m0) a := cur ! a]
            else cur)"
proof -
  let ?pi = "transpose_next R C"
  let ?b = "(?pi ^^ Suc m0) a"
  let ?cur' = "if ?b \<noteq> a then cur[a := cur ! ?b, ?b := cur ! a] else cur"
  have len: "length cur = R * C" using inv by (simp add: transpose_inv_def)
  have pre: "cur ! i = orig ! ?pi i" if "i < a" for i
    using inv that by (simp add: transpose_inv_def)
  have post: "cur ! ((?pi ^^ Suc m) p) = orig ! ?pi p"
    if "a \<le> p" "p < R * C" "transpose_hits R C a p m" for p m
    using inv that unfolding transpose_inv_def by blast
  have ba: "a \<le> ?b" using hb by (simp add: transpose_hits_def)
  have bn: "?b < R * C" using a by (rule transpose_funpow_less)
  have below: "(?pi ^^ Suc j) a < a" if "j < m0" for j
    using hb that by (simp add: transpose_hits_def)
  have at_a: "?cur' ! a = orig ! ?pi a"
  proof -
    have "cur ! ?b = orig ! ?pi a" using post [of a m0] a hb by simp
    then show ?thesis using a len by (auto simp add: nth_list_update)
  qed
  have at_b: "?cur' ! ?b = cur ! a" if "?b \<noteq> a"
    using that bn len by (simp add: nth_list_update)
  have other: "?cur' ! x = cur ! x" if "x \<noteq> a" "x \<noteq> ?b" for x
    using that by (simp add: nth_list_update)
  have len': "length ?cur' = R * C" using len by simp
  have part1: "?cur' ! i = orig ! ?pi i" if "i < a + 1" for i
  proof (cases "i = a")
    case True
    then show ?thesis using at_a by simp
  next
    case False
    then have i: "i < a" using that by simp
    then have "i \<noteq> ?b" using ba by simp
    then show ?thesis using other [of i] False pre [OF i] by simp
  qed
  have part2: "?cur' ! ((?pi ^^ Suc m) p) = orig ! ?pi p"
    if p: "a + 1 \<le> p" "p < R * C" and h: "transpose_hits R C (a + 1) p m" for p m
  proof -
    let ?r = "(?pi ^^ Suc m) p"
    have r: "a + 1 \<le> ?r" using h by (simp add: transpose_hits_def)
    have le: "(?pi ^^ Suc j) p < a + 1" if "j < m" for j
      using h that by (simp add: transpose_hits_def)
    show ?thesis
    proof (cases "\<exists>j<m. (?pi ^^ Suc j) p = a")
      case False
      have lt: "(?pi ^^ Suc j) p < a" if "j < m" for j
      proof -
        have "(?pi ^^ Suc j) p \<noteq> a" using False that by blast
        then show ?thesis using le [OF that] by simp
      qed
      have ha: "transpose_hits R C a p m"
        unfolding transpose_hits_def using r lt by simp
      have cur_r: "cur ! ?r = orig ! ?pi p" using post [of p m] p ha by simp
      have "?r \<noteq> ?b"
      proof
        assume eq: "?r = ?b"
        consider "m = m0" | "m < m0" | "m0 < m" by linarith
        then show False
        proof cases
          case 1
          then have "(?pi ^^ (Suc m + 0)) p = (?pi ^^ Suc m) a" using eq by simp
          then have "(?pi ^^ 0) p = a" by (rule transpose_funpow_cancel [OF p(2) a])
          then show False using p by simp
        next
          case 2
          then have "Suc m + (m0 - m) = Suc m0" by simp
          then have "(?pi ^^ (Suc m + (m0 - m))) a = (?pi ^^ Suc m) p" using eq by simp
          then have "(?pi ^^ (m0 - m)) a = p" by (rule transpose_funpow_cancel [OF a p(2)])
          moreover have "m0 - m = Suc (m0 - m - 1)" using 2 by simp
          ultimately have "(?pi ^^ Suc (m0 - m - 1)) a = p" by simp
          moreover have "(?pi ^^ Suc (m0 - m - 1)) a < a" using 2 by (intro below) simp
          ultimately show False using p by simp
        next
          case 3
          then have "Suc m0 + (m - m0) = Suc m" by simp
          then have "(?pi ^^ (Suc m0 + (m - m0))) p = (?pi ^^ Suc m0) a" using eq by simp
          then have "(?pi ^^ (m - m0)) p = a" by (rule transpose_funpow_cancel [OF p(2) a])
          moreover have "m - m0 = Suc (m - m0 - 1)" using 3 by simp
          ultimately have "(?pi ^^ Suc (m - m0 - 1)) p = a" by simp
          moreover have "m - m0 - 1 < m" using 3 by simp
          ultimately show False using False by blast
        qed
      qed
      moreover have "?r \<noteq> a" using r by simp
      ultimately have "?cur' ! ?r = cur ! ?r" by (intro other) simp_all
      then show ?thesis using cur_r by simp
    next
      case True
      obtain j0 where j0: "j0 < m" "(?pi ^^ Suc j0) p = a" "\<forall>i<j0. (?pi ^^ Suc i) p \<noteq> a"
        using ex_first_below [OF True] by blast
      have "transpose_hits R C a p j0"
        unfolding transpose_hits_def
      proof (intro conjI allI impI)
        show "a \<le> (?pi ^^ Suc j0) p" using j0 by simp
      next
        fix j assume j: "j < j0"
        then have "(?pi ^^ Suc j) p < a + 1" using j0(1) by (intro le) simp
        moreover have "(?pi ^^ Suc j) p \<noteq> a" using j0(3) j by blast
        ultimately show "(?pi ^^ Suc j) p < a" by simp
      qed
      then have "cur ! ((?pi ^^ Suc j0) p) = orig ! ?pi p" using post [of p j0] p by simp
      then have cur_a: "cur ! a = orig ! ?pi p" using j0 by simp
      obtain j1 where j1: "j1 < m" "(?pi ^^ Suc j1) p = a"
          "\<forall>i. j1 < i \<and> i < m \<longrightarrow> (?pi ^^ Suc i) p \<noteq> a"
        using ex_last_below [OF True] by blast
      have shift: "(?pi ^^ Suc i) a = (?pi ^^ Suc (i + Suc j1)) p" for i
      proof -
        have "(?pi ^^ Suc (i + Suc j1)) p = (?pi ^^ (Suc i + Suc j1)) p" by simp
        also have "\<dots> = (?pi ^^ Suc i) ((?pi ^^ Suc j1) p)" by (simp only: funpow_add o_apply)
        finally show ?thesis using j1 by simp
      qed
      have m_eq: "m - Suc j1 + Suc j1 = m" using j1 by simp
      have to_r: "(?pi ^^ Suc (m - Suc j1)) a = ?r" using shift [of "m - Suc j1"] m_eq by simp
      have "transpose_hits R C a a (m - Suc j1)"
        unfolding transpose_hits_def
      proof (intro conjI allI impI)
        show "a \<le> (?pi ^^ Suc (m - Suc j1)) a" using r to_r by simp
      next
        fix i assume i: "i < m - Suc j1"
        then have lt: "i + Suc j1 < m" by simp
        have "(?pi ^^ Suc (i + Suc j1)) p < a + 1" using lt by (rule le)
        moreover have "j1 < i + Suc j1 \<and> i + Suc j1 < m" using lt by simp
        then have "(?pi ^^ Suc (i + Suc j1)) p \<noteq> a" using j1(3) by blast
        ultimately show "(?pi ^^ Suc i) a < a" using shift [of i] by simp
      qed
      then have e: "m - Suc j1 = m0" using hb by (rule transpose_hits_unique)
      have rb: "?r = ?b" using to_r unfolding e by (rule sym)
      then have "?b \<noteq> a" using r by simp
      then have "?cur' ! ?b = cur ! a" by (rule at_b)
      then show ?thesis using rb cur_a by simp
    qed
  qed
  show ?thesis
    unfolding transpose_inv_def using len' part1 part2 by blast
qed

lemma transpose_inv_start:
  assumes "length orig = R * C" and "0 < R * C"
  shows "transpose_inv R C orig 1 orig"
proof -
  have h0: "transpose_hits R C 0 p m \<Longrightarrow> m = 0" for p m
    by (cases m) (auto simp: transpose_hits_def)
  have inv0: "transpose_inv R C orig 0 orig"
    unfolding transpose_inv_def using assms(1) by (auto dest: h0)
  have hit: "transpose_hits R C 0 0 0" by (simp add: transpose_hits_def)
  have "(transpose_next R C ^^ Suc 0) 0 = 0" by (simp add: transpose_next_def)
  then show ?thesis using transpose_inv_step [OF inv0 assms(2) hit] by simp
qed

lemma transpose_loop_run:
  assumes "transpose_inv R C orig a cur" and "a \<le> R * C - 1" and "0 < R * C"
  shows "\<exists>fin. transpose_loop R C (R * C) a cur = Some fin \<and> transpose_inv R C orig (R * C - 1) fin"
  using assms
proof (induction "R * C - 1 - a" arbitrary: a cur)
  case 0
  then have a: "a = R * C - 1" by simp
  then have "transpose_loop R C (R * C) a cur = Some cur"
    by (subst transpose_loop.simps) simp
  then show ?case using 0 a by simp
next
  case (Suc k)
  then have lt: "a < R * C - 1" by simp
  then have an: "a < R * C" by simp
  obtain m0 where hb: "transpose_hits R C a a m0"
    using transpose_hits_exists [OF an, of a] by blast
  let ?b = "(transpose_next R C ^^ Suc m0) a"
  let ?cur' = "if ?b \<noteq> a then cur[a := cur ! ?b, ?b := cur ! a] else cur"
  have follow: "transpose_follow R C a a = Some ?b" using hb by (rule transpose_follow_hits)
  have bn: "?b < R * C" using an by (rule transpose_funpow_less)
  have len: "length cur = R * C" using Suc.prems(1) by (simp add: transpose_inv_def)
  have step: "transpose_loop R C (R * C) a cur = transpose_loop R C (R * C) (a + 1) ?cur'"
    using lt follow bn an len by (subst transpose_loop.simps) (simp del: funpow.simps)
  have inv': "transpose_inv R C orig (a + 1) ?cur'"
    using Suc.prems(1) an hb by (rule transpose_inv_step)
  have "\<exists>fin. transpose_loop R C (R * C) (a + 1) ?cur' = Some fin \<and>
      transpose_inv R C orig (R * C - 1) fin"
    using Suc.hyps(2) lt Suc.prems(3) by (intro Suc.hyps(1) inv') simp_all
  then show ?case unfolding step .
qed

lemma transpose_inv_final:
  assumes "transpose_inv R C orig (R * C - 1) fin" and "0 < R * C"
  shows "length fin = R * C \<and> (\<forall>i<R * C. fin ! i = orig ! transpose_next R C i)"
proof (intro conjI allI impI)
  show "length fin = R * C" using assms(1) by (simp add: transpose_inv_def)
next
  fix i assume i: "i < R * C"
  show "fin ! i = orig ! transpose_next R C i"
  proof (cases "i < R * C - 1")
    case True
    then show ?thesis using assms(1) by (simp add: transpose_inv_def)
  next
    case False
    then have ie: "i = R * C - 1" using i by simp
    obtain m where h: "transpose_hits R C i i m"
      using transpose_hits_exists [OF i, of i] by blast
    have "(transpose_next R C ^^ Suc m) i < R * C" using i by (rule transpose_funpow_less)
    moreover have "i \<le> (transpose_next R C ^^ Suc m) i" using h by (simp add: transpose_hits_def)
    ultimately have r: "(transpose_next R C ^^ Suc m) i = i" using ie by simp
    have "fin ! ((transpose_next R C ^^ Suc m) i) = orig ! transpose_next R C i"
      using assms(1) h i ie unfolding transpose_inv_def by blast
    then show ?thesis unfolding r .
  qed
qed

lemma Map2D_transpose_correct:
  assumes "Map2D_wf m"
  shows "\<exists>buf. Map2D_transpose m = Some \<lparr>mRows = mCols m, mCols = mRows m, pData = buf\<rparr> \<and>
           length buf = mRows m * mCols m \<and>
           (\<forall>i<mRows m * mCols m. buf ! i = pData m ! transpose_next (mRows m) (mCols m) i)"
proof -
  let ?R = "mRows m" and ?C = "mCols m"
  have len: "length (pData m) = ?R * ?C" and pos: "0 < ?R * ?C" and R: "1 \<le> ?R" and C: "1 \<le> ?C"
    using assms by (simp_all add: Map2D_wf_def)
  show ?thesis
  proof (cases "1 < ?R \<or> 1 < ?C")
    case True
    have start: "transpose_inv ?R ?C (pData m) 1 (pData m)"
      using len pos by (rule transpose_inv_start)
    have "1 \<le> ?R * ?C - 1"
    proof -
      have "2 \<le> ?R * ?C"
      proof (cases "1 < ?R")
        case True
        then have "2 * 1 \<le> ?R * ?C" using C by (intro mult_le_mono) simp_all
        then show ?thesis by simp
      next
        case False
        with \<open>1 < ?R \<or> 1 < ?C\<close> have "1 < ?C" by simp
        then have "1 * 2 \<le> ?R * ?C" using R by (intro mult_le_mono) simp_all
        then show ?thesis by simp
      qed
      then show ?thesis by simp
    qed
    then obtain fin where fin: "transpose_loop ?R ?C (?R * ?C) 1 (pData m) = Some fin"
        "transpose_inv ?R ?C (pData m) (?R * ?C - 1) fin"
      using transpose_loop_run [OF start _ pos] by blast
    have "Map2D_transpose m = Some \<lparr>mRows = ?C, mCols = ?R, pData = fin\<rparr>"
      using True fin(1) by (simp add: Map2D_transpose_def Map2D_size_def)
    then show ?thesis using transpose_inv_final [OF fin(2) pos] by blast
  next
    case False
    then have one: "?R = 1" "?C = 1" using R C by simp_all
    have "Map2D_transpose m = Some \<lparr>mRows = ?C, mCols = ?R, pData = pData m\<rparr>"
      using False by (simp add: Map2D_transpose_def)
    moreover have "\<forall>i<?R * ?C. pData m ! i = pData m ! transpose_next ?R ?C i"
      using one by (simp add: transpose_next_def)
    ultimately show ?thesis using len by blast
  qed
qed

lemma Map2D_transpose_involution:
  fixes m :: "'a Map2D"
  assumes "Map2D_wf m"
  shows "\<exists>t. Map2D_transpose m = Some t \<and>
             mRows t = mCols m \<and> mCols t = mRows m \<and>
             length (pData t) = mRows m * mCols m \<and>
             (\<forall>i<mRows m. \<forall>j<mCols m. pData t ! (j * mRows m + i) = pData m ! (i * mCols m + j)) \<and>
             Map2D_transpose t = Some m"
proof -
  let ?R = "mRows m" and ?C = "mCols m"
  obtain buf where t: "Map2D_transpose m = Some \<lparr>mRows = ?C, mCols = ?R, pData = buf\<rparr>"
      "length buf = ?R * ?C" "\<forall>i<?R * ?C. buf ! i = pData m ! transpose_next ?R ?C i"
    using Map2D_transpose_correct [OF assms] by blast
  let ?t = "\<lparr>mRows = ?C, mCols = ?R, pData = buf\<rparr>"
  have wf: "Map2D_wf m" by fact
  have len: "length (pData m) = ?R * ?C" using wf by (simp add: Map2D_wf_def)
  have wft: "Map2D_wf ?t" using wf t(2) by (simp add: Map2D_wf_def mult.commute)
  obtain buf2 where t2: "Map2D_transpose ?t = Some \<lparr>mRows = ?R, mCols = ?C, pData = buf2\<rparr>"
      "length buf2 = ?C * ?R" "\<forall>i<?C * ?R. buf2 ! i = buf ! transpose_next ?C ?R i"
    using Map2D_transpose_correct [OF wft] by auto
  have "buf2 = pData m"
  proof (rule nth_equalityI)
    show "length buf2 = length (pData m)" using t2(2) len by (simp add: mult.commute)
  next
    fix i assume "i < length buf2"
    then have i: "i < ?C * ?R" using t2(2) by simp
    then have ti: "transpose_next ?C ?R i < ?C * ?R" by (rule transpose_next_less)
    have "buf2 ! i = buf ! transpose_next ?C ?R i" using t2(3) i by simp
    also have "\<dots> = pData m ! transpose_next ?R ?C (transpose_next ?C ?R i)"
      using t(3) ti by (simp add: mult.commute)
    also have "\<dots> = pData m ! i" using i by (simp add: transpose_next_inverse)
    finally show "buf2 ! i = pData m ! i" .
  qed
  then have again: "Map2D_transpose ?t = Some m" using t2(1) by simp
  have cells: "\<forall>i<?R. \<forall>j<?C. buf ! (j * ?R + i) = pData m ! (i * ?C + j)"
  proof (intro allI impI)
    fix i j assume i: "i < ?R" and j: "j < ?C"
    have "j * ?R + i < j * ?R + ?R" using i by simp
    also have "\<dots> = (j + 1) * ?R" by simp
    also have "\<dots> \<le> ?C * ?R" using j by (intro mult_le_mono1) simp
    finally have lt: "j * ?R + i < ?R * ?C" by (simp add: mult.commute)
    have "transpose_next ?R ?C (j * ?R + i) = i * ?C + j"
      using i by (simp add: transpose_next_def)
    then show "buf ! (j * ?R + i) = pData m ! (i * ?C + j)" using t(3) lt by simp
  qed
  show ?thesis using t(1,2) again cells by (intro exI [of _ ?t]) simp
qed

text \<open>
  Claim C6.  On every well-formed matrix, of any shape, \<^verbatim>\<open>transpose()\<close> returns: the
  result has the row and column counts exchanged, its element in row \<open>j\<close> and
  column \<open>i\<close> is the source's element in row \<open>i\<close> and column \<open>j\<close>, and transposing
  the result gives back the starting matrix, dimensions and contents.  Applied to
  the 2x3 matrix with rows \<open>[1,2,3]\<close> and \<open>[4,5,6]\<close> it yields the 3x2 matrix with
  rows \<open>[1,4]\<close>, \<open>[2,5]\<close>, \<open>[3,6]\<close>.
\<close>

theorem Map2D_transpose_twice:
  "(Map2D_wf m \<longrightarrow>
      (\<exists>t. Map2D_transpose m = Some t \<and>
           mRows t = mCols m \<and> mCols t = mRows m \<and>
           length (pData t) = mRows m * mCols m \<and>
           (\<forall>i<mRows m. \<forall>j<mCols m. pData t ! (j * mRows m + i) = pData m ! (i * mCols m + j)) \<and>
           Map2D_transpose t = Some m)) \<and>
   Map2D_transpose \<lparr>mRows = 2, mCols = 3, pData = [1, 2, 3, 4, 5, 6 :: int]\<rparr> =
     Some \<lparr>mRows = 3, mCols = 2, pData = [1, 4, 2, 5, 3, 6]\<rparr>"
proof
  show "Map2D_wf m \<longrightarrow>
      (\<exists>t. Map2D_transpose m = Some t \<and>
           mRows t = mCols m \<and> mCols t = mRows m \<and>
           length (pData t) = mRows m * mCols m \<and>
           (\<forall>i<mRows m. \<forall>j<mCols m. pData t ! (j * mRows m + i) = pData m ! (i * mCols m + j)) \<and>
           Map2D_transpose t = Some m)"
    using Map2D_transpose_involution [of m] by blast
next
  show "Map2D_transpose \<lparr>mRows = 2, mCols = 3, pData = [1, 2, 3, 4, 5, 6 :: int]\<rparr> =
     Some \<lparr>mRows = 3, mCols = 2, pData = [1, 4, 2, 5, 3, 6]\<rparr>"
    by (simp add: Map2D_transpose_def Map2D_size_def transpose_loop.simps
        transpose_follow.simps transpose_next_def)
qed

theorem Map2D_transpose_twice_witness:
  "Map2D_wf \<lparr>mRows = 2, mCols = 3, pData = [1, 2, 3, 4, 5, 6 :: int]\<rparr> \<and>
   Map2D_transpose \<lparr>mRows = 3, mCols = 2, pData = [1, 4, 2, 5, 3, 6 :: int]\<rparr> =
     Some \<lparr>mRows = 2, mCols = 3, pData = [1, 2, 3, 4, 5, 6]\<rparr>"
proof -
  let ?m = "\<lparr>mRows = 2, mCols = 3, pData = [1, 2, 3, 4, 5, 6 :: int]\<rparr>"
  let ?t = "\<lparr>mRows = 3, mCols = 2, pData = [1, 4, 2, 5, 3, 6 :: int]\<rparr>"
  have wf: "Map2D_wf ?m" by (simp add: Map2D_wf_def)
  have once: "Map2D_transpose ?m = Some ?t"
    using Map2D_transpose_twice [of ?m] by blast
  have "\<exists>t. Map2D_transpose ?m = Some t \<and> Map2D_transpose t = Some ?m"
    using Map2D_transpose_twice [of ?m] wf by blast
  then have "Map2D_transpose ?t = Some ?m" using once by auto
  with wf show ?thesis by blast
qed

subsection \<open>HomeDirManager\<close>

text \<open>
  Claim C3.  From every world and for every path argument: when the path is null,
  does not exist, is not a regular file, cannot be opened or read, cannot be
  sized, or has size zero, \<^verbatim>\<open>verifyFile\<close> returns false, the descriptor is as it
  was, and the validator has not been invoked (no call is recorded and its state
  is as it was).  Whenever the result is false, which covers a validator that
  was invoked and returned false, the descriptor is as it was.  The result is
  true only when the validator was invoked on the size, extension and hash of the
  file and returned true, and then all six descriptor fields are the new ones.
\<close>

theorem verifyFile_fails_closed:
  fixes w :: "'g World"
  shows
  "((filepath = None \<or>
     (\<exists>p. filepath = Some p \<and>
        (\<not> fs_exists fs p \<or> \<not> fs_is_regular_file fs p \<or> \<not> ifstream_is_open fs p \<or>
         \<not> ifstream_good fs p \<or> fst (fs_file_size fs p) \<or> snd (fs_file_size fs p) = 0))) \<longrightarrow>
      \<not> fst (verifyFile fs validate filepath w) \<and>
      HDM (snd (verifyFile fs validate filepath w)) = HDM w \<and>
      validator_calls (snd (verifyFile fs validate filepath w)) = validator_calls w \<and>
      validator_state (snd (verifyFile fs validate filepath w)) = validator_state w) \<and>
   (\<not> fst (verifyFile fs validate filepath w) \<longrightarrow>
      HDM (snd (verifyFile fs validate filepath w)) = HDM w) \<and>
   (fst (verifyFile fs validate filepath w) \<longrightarrow>
      (\<exists>p. filepath = Some p \<and>
         fst (validate (snd (fs_file_size fs p)) (fspath_extension fs p)
                (SHA1_from_file fs (fspath_string fs p)) (validator_state w)) \<and>
         validator_calls (snd (verifyFile fs validate filepath w)) =
           validator_calls w @ [(snd (fs_file_size fs p), fspath_extension fs p,
                                 SHA1_from_file fs (fspath_string fs p))] \<and>
         HDM (snd (verifyFile fs validate filepath w)) =
           (HDM w)\<lparr>HDM_path := fspath_string fs p,
                    HDM_file := fspath_filename fs p,
                    HDM_name := fspath_stem fs p,
                    HDM_type := fspath_extension fs p,
                    HDM_sha1 := SHA1_from_file fs (fspath_string fs p),
                    HDM_size := snd (fs_file_size fs p)\<rparr>))"
proof (cases filepath)
  case None
  then show ?thesis by (simp add: verifyFile_def)
next
  case (Some p)
  then show ?thesis
    by (simp add: verifyFile_def Let_def)
qed

theorem verifyFile_fails_closed_witness:
  "verifyFile
      \<lparr>fs_exists = (\<lambda>p. p = ''game.ch8'' \<or> p = ''empty.ch8''), fs_is_regular_file = (\<lambda>p. True),
       ifstream_is_open = (\<lambda>p. True), ifstream_good = (\<lambda>p. True),
       fs_file_size = (\<lambda>p. (False, if p = ''game.ch8'' then 4 else 0)),
       fspath_string = (\<lambda>p. p), fspath_extension = (\<lambda>p. ''.ch8''),
       fspath_filename = (\<lambda>p. p), fspath_stem = (\<lambda>p. ''game''),
       SHA1_from_file = (\<lambda>p. ''da39'')\<rparr>
      (\<lambda>fsize t h g. (t = ''.ch8'', Suc g))
      (Some ''missing.ch8'')
      \<lparr>HDM = \<lparr>HDM_permRegs = ''permRegs'', HDM_path = ''old.sc8'', HDM_file = ''old.sc8'',
               HDM_name = ''old'', HDM_type = ''.sc8'', HDM_sha1 = ''abcd'', HDM_size = 9\<rparr>,
       blog = \<lparr>stdLog = [], dbgLog = []\<rparr>, validator_state = (0::nat), validator_calls = []\<rparr>
    = (False,
      \<lparr>HDM = \<lparr>HDM_permRegs = ''permRegs'', HDM_path = ''old.sc8'', HDM_file = ''old.sc8'',
               HDM_name = ''old'', HDM_type = ''.sc8'', HDM_sha1 = ''abcd'', HDM_size = 9\<rparr>,
       blog = \<lparr>stdLog = [''Attempting to access file: missing.ch8''],
                dbgLog = [''Unable to use locate path: missing.ch8'']\<rparr>,
       validator_state = (0::nat), validator_calls = []\<rparr>) \<and>
   fst (verifyFile
      \<lparr>fs_exists = (\<lambda>p. p = ''game.ch8'' \<or> p = ''empty.ch8''), fs_is_regular_file = (\<lambda>p. True),
       ifstream_is_open = (\<lambda>p. True), ifstream_good = (\<lambda>p. True),
       fs_file_size = (\<lambda>p. (False, if p = ''game.ch8'' then 4 else 0)),
       fspath_string = (\<lambda>p. p), fspath_extension = (\<lambda>p. ''.ch8''),
       fspath_filename = (\<lambda>p. p), fspath_stem = (\<lambda>p. ''game''),
       SHA1_from_file = (\<lambda>p. ''da39'')\<rparr>
      (\<lambda>fsize t h g. (t = ''.ch8'', Suc g))
      (Some ''game.ch8'')
      \<lparr>HDM = \<lparr>HDM_permRegs = ''permRegs'', HDM_path = ''old.sc8'', HDM_file = ''old.sc8'',
               HDM_name = ''old'', HDM_type = ''.sc8'', HDM_sha1 = ''abcd'', HDM_size = 9\<rparr>,
       blog = \<lparr>stdLog = [], dbgLog = []\<rparr>, validator_state = (0::nat), validator_calls = []\<rparr>) \<and>
   HDM (snd (verifyFile
      \<lparr>fs_exists = (\<lambda>p. p = ''game.ch8'' \<or> p = ''empty.ch8''), fs_is_regular_file = (\<lambda>p. True),
       ifstream_is_open = (\<lambda>p. True), ifstream_good = (\<lambda>p. True),
       fs_file_size = (\<lambda>p. (False, if p = ''game.ch8'' then 4 else 0)),
       fspath_string = (\<lambda>p. p), fspath_extension = (\<lambda>p. ''.ch8''),
       fspath_filename = (\<lambda>p. p), fspath_stem = (\<lambda>p. ''game''),
       SHA1_from_file = (\<lambda>p. ''da39'')\<rparr>
      (\<lambda>fsize t h g. (t = ''.ch8'', Suc g))
      (Some ''game.ch8'')
      \<lparr>HDM = \<lparr>HDM_permRegs = ''permRegs'', HDM_path = ''old.sc8'', HDM_file = ''old.sc8'',
               HDM_name = ''old'', HDM_type = ''.sc8'', HDM_sha1 = ''abcd'', HDM_size = 9\<rparr>,
       blog = \<lparr>stdLog = [], dbgLog = []\<rparr>, validator_state = (0::nat), validator_calls = []\<rparr>))
    = \<lparr>HDM_permRegs = ''permRegs'', HDM_path = ''game.ch8'', HDM_file = ''game.ch8'',
       HDM_name = ''game'', HDM_type = ''.ch8'', HDM_sha1 = ''da39'', HDM_size = 4\<rparr>"
proof -
  let ?fs = "\<lparr>fs_exists = (\<lambda>p. p = ''game.ch8'' \<or> p = ''empty.ch8''), fs_is_regular_file = (\<lambda>p. True),
       ifstream_is_open = (\<lambda>p. True), ifstream_good = (\<lambda>p. True),
       fs_file_size = (\<lambda>p. (False, if p = ''game.ch8'' then 4 else 0)),
       fspath_string = (\<lambda>p. p), fspath_extension = (\<lambda>p. ''.ch8''),
       fspath_filename = (\<lambda>p. p), fspath_stem = (\<lambda>p. ''game''),
       SHA1_from_file = (\<lambda>p. ''da39'')\<rparr>"
  let ?v = "\<lambda>(fsize :: 64 word) (t :: string) (h :: string) (g :: nat). (t = ''.ch8'', Suc g)"
  let ?w = "\<lparr>HDM = \<lparr>HDM_permRegs = ''permRegs'', HDM_path = ''old.sc8'', HDM_file = ''old.sc8'',
               HDM_name = ''old'', HDM_type = ''.sc8'', HDM_sha1 = ''abcd'', HDM_size = 9\<rparr>,
       blog = \<lparr>stdLog = [], dbgLog = []\<rparr>, validator_state = (0::nat), validator_calls = []\<rparr>"
  note missing = verifyFile_fails_closed [of "Some ''missing.ch8''" ?fs ?v ?w]
  note game = verifyFile_fails_closed [of "Some ''game.ch8''" ?fs ?v ?w]
  have m: "\<not> fst (verifyFile ?fs ?v (Some ''missing.ch8'') ?w) \<and>
      HDM (snd (verifyFile ?fs ?v (Some ''missing.ch8'') ?w)) = HDM ?w \<and>
      validator_calls (snd (verifyFile ?fs ?v (Some ''missing.ch8'') ?w)) = validator_calls ?w \<and>
      validator_state (snd (verifyFile ?fs ?v (Some ''missing.ch8'') ?w)) = validator_state ?w"
    using missing by simp
  have first: "verifyFile ?fs ?v (Some ''missing.ch8'') ?w = (False,
      \<lparr>HDM = \<lparr>HDM_permRegs = ''permRegs'', HDM_path = ''old.sc8'', HDM_file = ''old.sc8'',
               HDM_name = ''old'', HDM_type = ''.sc8'', HDM_sha1 = ''abcd'', HDM_size = 9\<rparr>,
       blog = \<lparr>stdLog = [''Attempting to access file: missing.ch8''],
                dbgLog = [''Unable to use locate path: missing.ch8'']\<rparr>,
       validator_state = (0::nat), validator_calls = []\<rparr>)"
    using m by (simp add: verifyFile_def stdLogOut_def dbgLogOut_def)
  have ok: "fst (verifyFile ?fs ?v (Some ''game.ch8'') ?w)"
    by (simp add: verifyFile_def Let_def)
  with game have "HDM (snd (verifyFile ?fs ?v (Some ''game.ch8'') ?w)) =
      \<lparr>HDM_permRegs = ''permRegs'', HDM_path = ''game.ch8'', HDM_file = ''game.ch8'',
       HDM_name = ''game'', HDM_type = ''.ch8'', HDM_sha1 = ''da39'', HDM_size = 4\<rparr>"
    by simp
  with first ok show ?thesis by (simp only:) 
qed

subsection \<open>FrameLimiter\<close>

lemma fmod_finite_bounds:
  assumes "0 < y" and "y \<le> x"
  shows "0 \<le> fmod_finite x y \<and> fmod_finite x y < y"
proof -
  have q: "0 \<le> x / y" using assms by simp
  have fm: "fmod_finite x y = x - y * of_int \<lfloor>x / y\<rfloor>" using q by (simp add: fmod_finite_def)
  have yx: "y * (x / y) = x" using assms(1) by simp
  have "of_int \<lfloor>x / y\<rfloor> \<le> x / y" by (rule of_int_floor_le)
  then have "y * of_int \<lfloor>x / y\<rfloor> \<le> y * (x / y)"
    using assms(1) by (intro mult_left_mono) simp_all
  then have lo: "y * of_int \<lfloor>x / y\<rfloor> \<le> x" by (simp only: yx)
  have "x / y < of_int \<lfloor>x / y\<rfloor> + 1" by linarith
  then have "y * (x / y) < y * (of_int \<lfloor>x / y\<rfloor> + 1)"
    using assms(1) by (intro mult_strict_left_mono) simp_all
  then have hi: "x < y * (of_int \<lfloor>x / y\<rfloor> + 1)" by (simp only: yx)
  from lo hi show ?thesis unfolding fm by (simp add: algebra_simps)
qed

text \<open>The clamp of a rate that is a number or an infinity is a number in range.\<close>

lemma std_clamp_range:
  assumes "v \<noteq> NaN" and "lo \<le> hi"
  shows "\<exists>c. std_clamp v (Fin lo) (Fin hi) = Fin c \<and> lo \<le> c \<and> c \<le> hi"
  using assms by (cases v) (auto simp: std_clamp_def)

lemma std_clamp_NaN: "std_clamp NaN lo hi = NaN"
  by (simp add: std_clamp_def)

lemma setFreq_period:
  assumes "framerate \<noteq> NaN"
  shows "\<exists>p. timeFrequency (setFreq framerate firstpass lostframe s) = Fin p \<and> 1 \<le> p \<and> p \<le> 2000"
proof -
  from std_clamp_range [OF assms, of "1 / 2" 1000]
  obtain c where c: "std_clamp framerate (Fin (1 / 2)) (Fin 1000) = Fin c" "1 / 2 \<le> c" "c \<le> 1000"
    by auto
  have pos: "0 < c" using c(2) by linarith
  have "1 \<le> 1000 / c" using c pos by (simp add: pos_le_divide_eq)
  moreover have "1000 / c \<le> 2000" using c pos by (simp add: pos_divide_le_eq)
  ultimately show ?thesis using pos c(1) by (simp add: setFreq_def)
qed

lemma paced_new:
  assumes "framerate \<noteq> NaN"
  shows "paced (FrameLimiter_new framerate firstpass True)"
proof -
  from setFreq_period [OF assms]
  obtain p where p: "timeFrequency (FrameLimiter_new framerate firstpass True) = Fin p"
      "1 \<le> p" "p \<le> 2000"
    unfolding FrameLimiter_new_def by blast
  have "timeOvershoot (FrameLimiter_new framerate firstpass True) = Fin 0"
    "skipLostFrame (FrameLimiter_new framerate firstpass True)"
    by (simp_all add: FrameLimiter_new_def setFreq_def)
  then show ?thesis using p by (simp add: paced_def)
qed

lemma paced_cases:
  "paced s = (skipLostFrame s \<and>
     (\<exists>p v. timeFrequency s = Fin p \<and> timeOvershoot s = Fin v \<and>
            1 \<le> p \<and> p \<le> 2000 \<and> 0 \<le> v \<and> v < p))"
  by (auto simp: paced_def split: double.splits)

lemma isValidFrame_timed_success:
  assumes lost: "skipLostFrame s" and per: "timeFrequency s = Fin p" and pos: "0 < p"
    and ov: "timeOvershoot s \<noteq> NaN" "timeOvershoot s \<noteq> PInf"
    and nf: "\<not> skipFirstPass s"
    and ok: "fst (isValidFrame now s)"
  shows "\<exists>v. timeOvershoot (snd (isValidFrame now s)) = Fin v \<and> 0 \<le> v \<and> v < p \<and>
             timeFrequency (snd (isValidFrame now s)) = Fin p"
proof (cases "timeOvershoot s")
  case NaN then show ?thesis using ov by simp
next
  case PInf then show ?thesis using ov by simp
next
  case MInf
  then have "\<not> fst (isValidFrame now s)"
    using nf per by (simp add: isValidFrame_def Let_def)
  then show ?thesis using ok by simp
next
  case (Fin v0)
  let ?x = "v0 + (fst (snd now) - (if initTimeCheck s then timePastFrame s else fst now))"
  have ge: "p \<le> ?x"
    using nf ok per Fin by (auto simp: isValidFrame_def Let_def split: if_splits)
  from fmod_finite_bounds [OF pos ge]
  show ?thesis using lost nf per Fin ge pos by (auto simp: isValidFrame_def Let_def)
qed

lemma isValidFrame_first_pass:
  assumes "skipFirstPass s"
  shows "fst (isValidFrame now s) \<and>
         timeOvershoot (snd (isValidFrame now s)) = timeOvershoot s \<and>
         timeFrequency (snd (isValidFrame now s)) = timeFrequency s \<and>
         \<not> skipFirstPass (snd (isValidFrame now s))"
  using assms by (simp add: isValidFrame_def Let_def)

lemma isValidFrame_keeps:
  "timeFrequency (snd (isValidFrame now s)) = timeFrequency s \<and>
   skipLostFrame (snd (isValidFrame now s)) = skipLostFrame s"
  by (simp add: isValidFrame_def Let_def)

lemma isValidFrame_failure:
  "\<not> fst (isValidFrame now s) \<Longrightarrow> timeOvershoot (snd (isValidFrame now s)) = timeOvershoot s"
  by (auto simp: isValidFrame_def Let_def split: if_splits)

lemma paced_isValidFrame: "paced s \<Longrightarrow> paced (snd (isValidFrame now s))"
proof -
  assume p: "paced s"
  then obtain q v where s: "skipLostFrame s" "timeFrequency s = Fin q" "timeOvershoot s = Fin v"
      "1 \<le> q" "q \<le> 2000" "0 \<le> v" "v < q"
    unfolding paced_cases by blast
  show ?thesis
  proof (cases "fst (isValidFrame now s)")
    case False
    from isValidFrame_failure [OF this] isValidFrame_keeps [of now s]
    show ?thesis using s unfolding paced_cases by simp
  next
    case ok: True
    show ?thesis
    proof (cases "skipFirstPass s")
      case True
      from isValidFrame_first_pass [OF this, of now] isValidFrame_keeps [of now s]
      show ?thesis using s unfolding paced_cases by simp
    next
      case False
      have "0 < q" using s(4) by linarith
      from isValidFrame_timed_success [OF s(1) s(2) this _ _ False ok] s(3)
      obtain w where "timeOvershoot (snd (isValidFrame now s)) = Fin w" "0 \<le> w" "w < q"
        "timeFrequency (snd (isValidFrame now s)) = Fin q" by auto
      then show ?thesis using s isValidFrame_keeps [of now s] unfolding paced_cases by simp
    qed
  qed
qed

lemma paced_run: "paced s \<Longrightarrow> paced (isValidFrame_run nows s)"
  by (induction nows arbitrary: s) (simp_all add: paced_isValidFrame)

text \<open>A NaN period: every check succeeds and the period stays NaN.\<close>

lemma isValidFrame_NaN_period:
  "timeFrequency s = NaN \<Longrightarrow>
   fst (isValidFrame now s) \<and> timeFrequency (snd (isValidFrame now s)) = NaN"
  by (cases "timeOvershoot s") (simp_all add: isValidFrame_def Let_def)

lemma isValidFrame_run_NaN_period:
  "timeFrequency s = NaN \<Longrightarrow> timeFrequency (isValidFrame_run nows s) = NaN"
  by (induction nows arbitrary: s) (simp_all add: isValidFrame_NaN_period)

text \<open>
  Claim C4, as amended.  A pacer constructed with \<^verbatim>\<open>skipLostFrame\<close> set, at any rate
  that is not a NaN (infinite rates included) and with either first-pass flag,
  and then driven by pacing checks alone, with arbitrary clock readings: after
  every check that succeeds the period is a number between 1 and 2000
  milliseconds and the stored overshoot is a number strictly below it.  In any
  state with \<^verbatim>\<open>skipLostFrame\<close> set, a positive finite period and a stored overshoot
  that is neither NaN nor plus infinity, a check that succeeds on the elapsed time
  stores an overshoot that is at least 0 and strictly below the period, however
  many periods have elapsed.  A check that finds the first-pass flag armed
  succeeds and leaves the stored overshoot and the period as they were.
\<close>

theorem isValidFrame_overshoot:
  "(framerate \<noteq> NaN \<and>
    fst (isValidFrame now (isValidFrame_run nows (FrameLimiter_new framerate firstpass True))) \<longrightarrow>
     (\<exists>p v.
        timeFrequency (snd (isValidFrame now (isValidFrame_run nows (FrameLimiter_new framerate firstpass True)))) = Fin p \<and>
        timeOvershoot (snd (isValidFrame now (isValidFrame_run nows (FrameLimiter_new framerate firstpass True)))) = Fin v \<and>
        v < p \<and> 1 \<le> p \<and> p \<le> 2000)) \<and>
   (skipLostFrame s \<and> timeFrequency s = Fin q \<and> 0 < q \<and>
    timeOvershoot s \<noteq> NaN \<and> timeOvershoot s \<noteq> PInf \<and>
    \<not> skipFirstPass s \<and> fst (isValidFrame now s) \<longrightarrow>
     (\<exists>v. timeOvershoot (snd (isValidFrame now s)) = Fin v \<and> 0 \<le> v \<and> v < q \<and>
          timeFrequency (snd (isValidFrame now s)) = Fin q)) \<and>
   (skipFirstPass s \<longrightarrow>
     fst (isValidFrame now s) \<and>
     timeOvershoot (snd (isValidFrame now s)) = timeOvershoot s \<and>
     timeFrequency (snd (isValidFrame now s)) = timeFrequency s)"
proof (intro conjI impI)
  assume a: "framerate \<noteq> NaN \<and>
    fst (isValidFrame now (isValidFrame_run nows (FrameLimiter_new framerate firstpass True)))"
  then have "paced (FrameLimiter_new framerate firstpass True)" by (intro paced_new) simp
  then have "paced (snd (isValidFrame now (isValidFrame_run nows (FrameLimiter_new framerate firstpass True))))"
    by (intro paced_isValidFrame paced_run)
  then show "\<exists>p v.
        timeFrequency (snd (isValidFrame now (isValidFrame_run nows (FrameLimiter_new framerate firstpass True)))) = Fin p \<and>
        timeOvershoot (snd (isValidFrame now (isValidFrame_run nows (FrameLimiter_new framerate firstpass True)))) = Fin v \<and>
        v < p \<and> 1 \<le> p \<and> p \<le> 2000"
    unfolding paced_cases by blast
next
  assume a: "skipLostFrame s \<and> timeFrequency s = Fin q \<and> 0 < q \<and>
    timeOvershoot s \<noteq> NaN \<and> timeOvershoot s \<noteq> PInf \<and>
    \<not> skipFirstPass s \<and> fst (isValidFrame now s)"
  then show "\<exists>v. timeOvershoot (snd (isValidFrame now s)) = Fin v \<and> 0 \<le> v \<and> v < q \<and>
          timeFrequency (snd (isValidFrame now s)) = Fin q"
    by (intro isValidFrame_timed_success) simp_all
next
  assume f: "skipFirstPass s"
  show "fst (isValidFrame now s)" using isValidFrame_first_pass [OF f] by simp
  show "timeOvershoot (snd (isValidFrame now s)) = timeOvershoot s" using isValidFrame_first_pass [OF f] by simp
  show "timeFrequency (snd (isValidFrame now s)) = timeFrequency s" using isValidFrame_first_pass [OF f] by simp
qed

theorem isValidFrame_overshoot_witness:
  "Fin (1 / 2) \<noteq> NaN \<and>
   fst (isValidFrame (0, 7300, 7301) (isValidFrame_run [(0, 0, 0)] (FrameLimiter_new (Fin (1 / 2)) True True))) \<and>
   timeOvershoot (snd (isValidFrame (0, 7300, 7301) (isValidFrame_run [(0, 0, 0)] (FrameLimiter_new (Fin (1 / 2)) True True)))) = Fin 1300 \<and>
   timeFrequency (snd (isValidFrame (0, 7300, 7301) (isValidFrame_run [(0, 0, 0)] (FrameLimiter_new (Fin (1 / 2)) True True)))) = Fin 2000 \<and>
   skipLostFrame (isValidFrame_run [(0, 0, 0)] (FrameLimiter_new (Fin (1 / 2)) True True)) \<and>
   timeFrequency (isValidFrame_run [(0, 0, 0)] (FrameLimiter_new (Fin (1 / 2)) True True)) = Fin 2000 \<and>
   timeOvershoot (isValidFrame_run [(0, 0, 0)] (FrameLimiter_new (Fin (1 / 2)) True True)) = Fin 0 \<and>
   \<not> skipFirstPass (isValidFrame_run [(0, 0, 0)] (FrameLimiter_new (Fin (1 / 2)) True True)) \<and>
   skipFirstPass (FrameLimiter_new (Fin (1 / 2)) True True) \<and>
   fst (isValidFrame (0, 0, 0) (FrameLimiter_new (Fin (1 / 2)) True True)) \<and>
   timeOvershoot (snd (isValidFrame (0, 0, 0) (FrameLimiter_new (Fin (1 / 2)) True True))) = Fin 0"
proof -
  let ?new = "FrameLimiter_new (Fin (1 / 2)) True True"
  let ?s = "isValidFrame_run [(0, 0, 0)] ?new"
  let ?t = "snd (isValidFrame (0, 7300, 7301) ?s)"
  have armed: "skipFirstPass ?new" by (simp add: FrameLimiter_new_def setFreq_def)
  have zero: "timeOvershoot ?new = Fin 0" by (simp add: FrameLimiter_new_def setFreq_def)
  have first: "fst (isValidFrame (0, 0, 0) ?new) \<and>
      timeOvershoot (snd (isValidFrame (0, 0, 0) ?new)) = Fin 0"
    using isValidFrame_overshoot [of "Fin (1 / 2)" "(0, 0, 0)" "[]" True ?new 1] armed zero by simp
  have state: "skipLostFrame ?s \<and> timeFrequency ?s = Fin 2000 \<and> timeOvershoot ?s = Fin 0 \<and>
      \<not> skipFirstPass ?s"
    by (simp add: isValidFrame_def FrameLimiter_new_def setFreq_def std_clamp_def Let_def)
  have ok: "fst (isValidFrame (0, 7300, 7301) ?s)"
    by (simp add: isValidFrame_def FrameLimiter_new_def setFreq_def std_clamp_def Let_def)
  have run: "\<exists>p v. timeFrequency ?t = Fin p \<and> timeOvershoot ?t = Fin v \<and> v < p \<and> 1 \<le> p \<and> p \<le> 2000"
    using isValidFrame_overshoot [of "Fin (1 / 2)" "(0, 7300, 7301)" "[(0, 0, 0)]" True ?s 2000] ok
    by blast
  have timed: "\<exists>v. timeOvershoot ?t = Fin v \<and> 0 \<le> v \<and> v < 2000 \<and> timeFrequency ?t = Fin 2000"
    using isValidFrame_overshoot [of "Fin (1 / 2)" "(0, 7300, 7301)" "[(0, 0, 0)]" True ?s 2000]
      state ok by simp
  have val: "timeOvershoot ?t = Fin 1300 \<and> timeFrequency ?t = Fin 2000"
    by (simp add: isValidFrame_def FrameLimiter_new_def setFreq_def std_clamp_def fmod_finite_def Let_def)
  show ?thesis using first state ok armed val run timed by simp
qed

text \<open>
  Claim C4 as stated fails after a reconfiguration.  A pacer at 0.5 Hz takes its
  first pass, then succeeds after 3500 ms and stores the overshoot 1500;
  \<^verbatim>\<open>setFreq(1000, true, true)\<close> sets the period to 1 ms and arms the first pass
  again; the next check succeeds at once and the stored overshoot is still 1500,
  with \<^verbatim>\<open>skipLostFrame\<close> set throughout.
\<close>

theorem setFreq_keeps_stale_overshoot:
  "fst (isValidFrame (3600, 3600, 3600)
     (setFreq (Fin 1000) True True
        (isValidFrame_run [(0, 0, 0), (0, 3500, 3500)] (FrameLimiter_new (Fin (1 / 2)) True True)))) \<and>
   skipLostFrame (snd (isValidFrame (3600, 3600, 3600)
     (setFreq (Fin 1000) True True
        (isValidFrame_run [(0, 0, 0), (0, 3500, 3500)] (FrameLimiter_new (Fin (1 / 2)) True True))))) \<and>
   timeFrequency (snd (isValidFrame (3600, 3600, 3600)
     (setFreq (Fin 1000) True True
        (isValidFrame_run [(0, 0, 0), (0, 3500, 3500)] (FrameLimiter_new (Fin (1 / 2)) True True))))) = Fin 1 \<and>
   timeOvershoot (snd (isValidFrame (3600, 3600, 3600)
     (setFreq (Fin 1000) True True
        (isValidFrame_run [(0, 0, 0), (0, 3500, 3500)] (FrameLimiter_new (Fin (1 / 2)) True True))))) = Fin 1500 \<and>
   \<not> double_less (Fin 1500) (Fin 1)"
  by (simp add: isValidFrame_def FrameLimiter_new_def setFreq_def std_clamp_def fmod_finite_def Let_def)

text \<open>
  The rate is not tested for NaN.  \<^verbatim>\<open>std::clamp\<close> hands a NaN rate through, the
  period is then NaN for the whole life of the pacer, no elapsed time compares
  below it, so every check succeeds, and the stored overshoot never compares below
  the period: after the first timed success it is itself NaN.
\<close>

lemma FrameLimiter_NaN_rate:
  "fst (isValidFrame now (isValidFrame_run nows (FrameLimiter_new NaN firstpass lostframe))) \<and>
   timeFrequency (snd (isValidFrame now (isValidFrame_run nows (FrameLimiter_new NaN firstpass lostframe)))) = NaN \<and>
   \<not> double_less
       (timeOvershoot (snd (isValidFrame now (isValidFrame_run nows (FrameLimiter_new NaN firstpass lostframe)))))
       (timeFrequency (snd (isValidFrame now (isValidFrame_run nows (FrameLimiter_new NaN firstpass lostframe)))))"
proof -
  have "timeFrequency (FrameLimiter_new NaN firstpass lostframe) = NaN"
    by (simp add: FrameLimiter_new_def setFreq_def std_clamp_def)
  then have n: "timeFrequency (isValidFrame_run nows (FrameLimiter_new NaN firstpass lostframe)) = NaN"
    by (rule isValidFrame_run_NaN_period)
  from isValidFrame_NaN_period [OF n, of now]
  show ?thesis
    by (cases "timeOvershoot (snd (isValidFrame now (isValidFrame_run nows (FrameLimiter_new NaN firstpass lostframe))))")
       simp_all
qed

lemma FrameLimiter_NaN_rate_example:
  "fst (isValidFrame (0, 5, 5) (isValidFrame_run [(0, 0, 0)] (FrameLimiter_new NaN True True))) \<and>
   timeFrequency (snd (isValidFrame (0, 5, 5) (isValidFrame_run [(0, 0, 0)] (FrameLimiter_new NaN True True)))) = NaN \<and>
   timeOvershoot (snd (isValidFrame (0, 5, 5) (isValidFrame_run [(0, 0, 0)] (FrameLimiter_new NaN True True)))) = NaN"
  by (simp add: isValidFrame_def FrameLimiter_new_def setFreq_def std_clamp_def Let_def)

subsection \<open>GameFileChecker\<close>

text \<open>
  Claim C9.  \<^verbatim>\<open>getError\<close> returns the stored reason and leaves the slot empty, so
  that a second call with nothing recorded in between returns the empty string; the
  held core is not touched.
\<close>

theorem getError_single_consumption:
  "fst (getError s) = sErrorMsg s \<and>
   sErrorMsg (snd (getError s)) = [] \<and>
   fst (getError (snd (getError s))) = [] \<and>
   sEmuCore (snd (getError s)) = sEmuCore s"
  by (simp add: getError_def)

end
